theory Spec2Isabelle
  imports Main
begin

section \<open>Python values used by md\_lint.py\<close>

text \<open>
  A Python \<open>str\<close> is a sequence of Unicode code points, so it is modelled as a list of
  natural numbers; \<open>len\<close> is \<open>length\<close>. ASCII literals of the source are written
  \<open>py ''...''\<close>; the Korean message texts are given by their code points.
\<close>

type_synonym str = "nat list"

definition py :: "string \<Rightarrow> str" where
  "py s = map of_char s"

text \<open>The exceptions the body of \<open>check_file\<close> can meet, with the interpreter's message.\<close>

datatype error = IndexError | ValueError str

definition getitem :: "'a list \<Rightarrow> int \<Rightarrow> error + 'a" where
  \<comment> \<open>\<open>xs[k]\<close>: \<open>xs[-1]\<close> is the last item; outside \<open>-len .. len-1\<close> Python raises.\<close>
  "getitem xs k =
     (if 0 \<le> k \<and> k < int (length xs) then Inr (xs ! nat k)
      else if k < 0 \<and> - int (length xs) \<le> k then Inr (xs ! nat (int (length xs) + k))
      else Inl IndexError)"

definition str_index :: "str \<Rightarrow> nat \<Rightarrow> error + nat" where
  \<comment> \<open>\<open>s.index(c)\<close> for a one-character \<open>c\<close>: the first position, ValueError when absent.\<close>
  "str_index s c =
     (if c \<in> set s then Inr (length (takeWhile (\<lambda>x. x \<noteq> c) s))
      else Inl (ValueError (py ''substring not found'')))"

definition max_key :: "('a \<Rightarrow> nat) \<Rightarrow> 'a list \<Rightarrow> error + 'a" where
  \<comment> \<open>\<open>max(iterable, key=f)\<close>: the first item with the greatest key, ValueError when empty.\<close>
  "max_key f xs =
     (case xs of
        [] \<Rightarrow> Inl (ValueError (py ''max() arg is an empty sequence''))
      | x # r \<Rightarrow> Inr (foldl (\<lambda>b y. if f b < f y then y else b) x r))"

definition set_iter :: "nat list \<Rightarrow> nat list" where
  \<comment> \<open>The items of \<open>set(xs)\<close> in iteration order. CPython walks its hash table; the model
      takes increasing order. The two differ only in which of several equally frequent
      values \<open>max\<close> returns.\<close>
  "set_iter xs = sort (remdups xs)"

definition isspace :: "nat \<Rightarrow> bool" where
  \<comment> \<open>\<open>str.isspace\<close>, which is also the class \<open>\s\<close> of \<open>re\<close> and what \<open>strip\<close> removes.\<close>
  "isspace c =
     ((9 \<le> c \<and> c \<le> 13) \<or> (28 \<le> c \<and> c \<le> 32) \<or> c = 133 \<or> c = 160 \<or> c = 5760 \<or>
      (8192 \<le> c \<and> c \<le> 8202) \<or> c = 8232 \<or> c = 8233 \<or> c = 8239 \<or> c = 8287 \<or> c = 12288)"

definition is_linebreak :: "nat \<Rightarrow> bool" where
  \<comment> \<open>The line boundaries of \<open>str.splitlines\<close>: LF, VT, FF, CR, FS, GS, RS, NEL, LS, PS.\<close>
  "is_linebreak c =
     (c = 10 \<or> c = 11 \<or> c = 12 \<or> c = 13 \<or> c = 28 \<or> c = 29 \<or> c = 30 \<or> c = 133 \<or>
      c = 8232 \<or> c = 8233)"

definition nd_blocks :: "nat list" where
  \<comment> \<open>First code point of every run of ten decimal digits (category Nd, Unicode 14).\<close>
  "nd_blocks =
    [48, 1632, 1776, 1984, 2406, 2534, 2662, 2790, 2918, 3046, 3174, 3302, 3430, 3558,
     3664, 3792, 3872, 4160, 4240, 6112, 6160, 6470, 6608, 6784, 6800, 6992, 7088, 7232,
     7248, 42528, 43216, 43264, 43472, 43504, 43600, 44016, 65296, 66720, 68912, 69734,
     69872, 69942, 70096, 70384, 70736, 70864, 71248, 71360, 71472, 71904, 72016, 72784,
     73040, 73120, 92768, 92864, 93008, 120782, 120792, 120802, 120812, 120822, 123200,
     123632, 125264, 130032]"

definition isdecimal :: "nat \<Rightarrow> bool" where
  \<comment> \<open>The class \<open>\d\<close> of \<open>re\<close> on \<open>str\<close>: any Unicode decimal digit.\<close>
  "isdecimal c = list_ex (\<lambda>b. b \<le> c \<and> c < b + 10) nd_blocks"

definition strip :: "str \<Rightarrow> str" where
  \<comment> \<open>\<open>s.strip()\<close>: white space removed at both ends.\<close>
  "strip s = rev (dropWhile isspace (rev (dropWhile isspace s)))"

fun str_nat :: "nat \<Rightarrow> str" where
  "str_nat n = (if n < 10 then [48 + n] else str_nat (n div 10) @ [48 + n mod 10])"

definition str_int :: "int \<Rightarrow> str" where
  \<comment> \<open>\<open>str(k)\<close>, the decimal text an f-string inserts for an int.\<close>
  "str_int k = (if k < 0 then 45 # str_nat (nat (- k)) else str_nat (nat k))"

definition slice_to :: "'a list \<Rightarrow> int \<Rightarrow> 'a list" where
  \<comment> \<open>\<open>s[:k]\<close>: a negative bound counts from the end; slicing never raises.\<close>
  "slice_to s k = (if k < 0 then take (nat (int (length s) + k)) s else take (nat k) s)"

definition slice_last :: "'a list \<Rightarrow> nat \<Rightarrow> 'a list" where
  \<comment> \<open>\<open>s[-n:]\<close> for a positive \<open>n\<close>.\<close>
  "slice_last s n = drop (length s - n) s"

definition replace_tabs :: "str \<Rightarrow> str" where
  \<comment> \<open>\<open>line.replace("\t", "\\t")\<close>: every tab becomes a backslash and the letter t.\<close>
  "replace_tabs s = concat (map (\<lambda>c. if c = 9 then [92, 116] else [c]) s)"

fun splitlines_from :: "str \<Rightarrow> str \<Rightarrow> str list" where
  "splitlines_from cur [] = (if cur = [] then [] else [cur])"
| "splitlines_from cur (c # cs) =
     (if c = 13 \<and> cs \<noteq> [] \<and> hd cs = 10 then cur # splitlines_from [] (tl cs)
      else if is_linebreak c then cur # splitlines_from [] cs
      else splitlines_from (cur @ [c]) cs)"

definition splitlines :: "str \<Rightarrow> str list" where
  \<comment> \<open>\<open>raw.splitlines()\<close>: CR LF is one boundary, and text that ends at a boundary has
      no empty last line. The first argument of the helper is the line being read.\<close>
  "splitlines raw = splitlines_from [] raw"

definition endswith_newline :: "str \<Rightarrow> bool" where
  \<comment> \<open>\<open>raw.endswith("\n")\<close>\<close>
  "endswith_newline raw = (raw \<noteq> [] \<and> last raw = 10)"

fun crlf_search :: "str \<Rightarrow> bool" where
  "crlf_search (a # b # r) = ((a = 13 \<and> b = 10) \<or> crlf_search (b # r))"
| "crlf_search _ = False"

section \<open>The Issue record\<close>

record issue =
  "file" :: str
  line :: int
  col :: int
  code :: str
  message :: str
  "context" :: str

definition Issue :: "str \<Rightarrow> int \<Rightarrow> int \<Rightarrow> str \<Rightarrow> str \<Rightarrow> str \<Rightarrow> issue" where
  "Issue f l c cd msg ctx =
     \<lparr>file = f, line = l, col = c, code = cd, message = msg, context = ctx\<rparr>"

subsection \<open>Message texts\<close>

definition msg_read :: str where
  "msg_read =
    [54028, 51068, 51012, 32, 50676, 32, 49688, 32, 50630, 49845, 45768, 45796, 58, 32]"

definition msg_crlf :: str where
  "msg_crlf =
    [50952, 46020, 50864, 32, 67, 82, 76, 70, 32, 51460, 48148, 45000, 32, 44048, 51648,
     40, 44032, 45733, 54616, 47732, 32, 76, 70, 32, 44428, 51109, 41, 46]"

definition msg_noeofnl :: str where
  "msg_noeofnl =
    [54028, 51068, 32, 45149, 50640, 32, 44060, 54665, 40, 78, 101, 119, 108, 105, 110,
     101, 41, 51060, 32, 50630, 49845, 45768, 45796, 46]"

definition msg_trail_fence :: str where
  "msg_trail_fence =
    [53076, 46300, 48660, 47197, 32, 45236, 32, 53944, 47112, 51068, 47553, 32, 44277,
     48177, 46]"

definition msg_trail :: str where
  "msg_trail =
    [53944, 47112, 51068, 47553, 32, 44277, 48177, 46]"

definition msg_multiblank :: str where
  "msg_multiblank =
    [48712, 32, 51460, 51060, 32, 50, 51460, 32, 52488, 44284, 47196, 32, 50672, 49549,
     46121, 45768, 45796, 46]"

definition msg_linelen_1 :: str where
  "msg_linelen_1 =
    [51460, 32, 44600, 51060, 32]"

definition msg_tab :: str where
  "msg_tab =
    [53485, 32, 47928, 51088, 44032, 32, 44048, 51648, 46104, 50632, 49845, 45768,
     45796, 40, 49828, 54168, 51060, 49828, 32, 44428, 51109, 41, 46]"

definition msg_headspace :: str where
  "msg_headspace =
    [54756, 46377, 51032, 32, 39, 35, 39, 32, 45796, 51020, 50640, 45716, 32, 44277,
     48177, 51060, 32, 54596, 50836, 54633, 45768, 45796, 46]"

definition msg_emptyhead :: str where
  "msg_emptyhead =
    [48712, 32, 54756, 46377, 32, 53581, 49828, 53944, 46]"

definition msg_multih1 :: str where
  "msg_multih1 =
    [47928, 49436, 32, 45236, 32, 72, 49, 32, 54756, 46377, 51060, 32, 50, 44060, 32,
     51060, 49345, 51077, 45768, 45796, 46]"

definition msg_headjump_1 :: str where
  "msg_headjump_1 =
    [54756, 46377, 32, 47112, 48296, 51060, 32]"

definition msg_headjump_2 :: str where
  "msg_headjump_2 =
    [8594]"

definition msg_headjump_3 :: str where
  "msg_headjump_3 =
    [47196, 32, 50, 32, 51060, 49345, 32, 51216, 54532, 46]"

definition msg_noalttext :: str where
  "msg_noalttext =
    [51060, 48120, 51648, 51032, 32, 45824, 52404, 53581, 49828, 53944, 40, 97, 108,
     116, 41, 44032, 32, 48708, 50612, 32, 51080, 49845, 45768, 45796, 46]"

definition msg_emptylinktext :: str where
  "msg_emptylinktext =
    [47553, 53356, 32, 53581, 49828, 53944, 44032, 32, 48708, 50612, 32, 51080, 49845,
     45768, 45796, 46]"

definition msg_emptyurl :: str where
  "msg_emptyurl =
    [47553, 53356, 47, 51060, 48120, 51648, 32, 85, 82, 76, 51060, 32, 48708, 50612, 32,
     51080, 49845, 45768, 45796, 46]"

definition msg_scheme_1 :: str where
  "msg_scheme_1 =
    [48708, 54364, 51456, 47, 51032, 46020, 52824, 32, 50506, 51008, 32, 49828, 53428,
     32, 39]"

definition msg_tablepipes_1 :: str where
  "msg_tablepipes_1 =
    [53580, 51060, 48660, 32, 48660, 47197, 51032, 32, 54028, 51060, 54532, 32, 49688,
     32, 48520, 51068, 52824, 40, 44592, 45824, 32]"

definition msg_tablepipes_2 :: str where
  "msg_tablepipes_2 =
    [44, 32, 49892, 51228, 32]"

definition msg_listtab :: str where
  "msg_listtab =
    [47785, 47197, 32, 46308, 50668, 50416, 44592, 50640, 32, 53485, 32, 49324, 50857,
     46]"

definition msg_fence :: str where
  "msg_fence =
    [50676, 47536, 32, 53076, 46300, 32, 54172, 49828, 44032, 32, 45803, 55176, 51648,
     32, 50506, 50520, 49845, 45768, 45796, 46]"

section \<open>Pattern library\<close>

text \<open>
  The compiled patterns of lines 18 to 25, each as the function that \<open>match\<close>,
  \<open>search\<close>, \<open>sub\<close> or \<open>finditer\<close> computes on one line. They are applied to the items
  of \<open>raw.splitlines()\<close> only, which hold no newline, so \<open>.\<close> matches every character
  and \<open>$\<close> only the end of the line. A match returns its groups.
\<close>

definition code_fence_match :: "str \<Rightarrow> (str \<times> str \<times> str) option" where
  \<comment> \<open>\<open>CODE_FENCE_PAT.match\<close>: groups indent, marker, info.\<close>
  "code_fence_match s =
     (let indent = takeWhile isspace s; r = dropWhile isspace s;
          ticks = takeWhile (\<lambda>c. c = 96) r; tildes = takeWhile (\<lambda>c. c = 126) r
      in if 3 \<le> length ticks then Some (indent, ticks, drop (length ticks) r)
         else if 3 \<le> length tildes then Some (indent, tildes, drop (length tildes) r)
         else None)"

definition heading_match :: "str \<Rightarrow> (str \<times> str) option" where
  \<comment> \<open>\<open>HEADING_PAT.match\<close>: groups hashes (one to six of them, greedily) and text.\<close>
  "heading_match s =
     (let n = min 6 (length (takeWhile (\<lambda>c. c = 35) s))
      in if n = 0 then None else Some (take n s, dropWhile isspace (drop n s)))"

definition trailing_space_search :: "str \<Rightarrow> bool" where
  \<comment> \<open>\<open>TRAILING_SPACE_PAT.search\<close>: the line ends in a space or a tab.\<close>
  "trailing_space_search s = (s \<noteq> [] \<and> (last s = 32 \<or> last s = 9))"

definition table_line_match :: "str \<Rightarrow> bool" where
  \<comment> \<open>\<open>TABLE_LINE_PAT.match\<close>: a pipe after the leading white space, and a later pipe
      with nothing but white space behind it.\<close>
  "table_line_match s =
     (case dropWhile isspace s of
        [] \<Rightarrow> False
      | c # r \<Rightarrow> c = 124 \<and> (case dropWhile isspace (rev r) of [] \<Rightarrow> False | d # _ \<Rightarrow> d = 124))"

definition list_marker_match :: "str \<Rightarrow> str option" where
  \<comment> \<open>\<open>LIST_MARKER_PAT.match\<close>: group 1, the indent.\<close>
  "list_marker_match s =
     (let indent = takeWhile isspace s; r = dropWhile isspace s
      in case r of
           [] \<Rightarrow> None
         | c # cs \<Rightarrow>
             if c = 45 \<or> c = 43 \<or> c = 42
             then (case cs of [] \<Rightarrow> None | d # _ \<Rightarrow> if isspace d then Some indent else None)
             else if isdecimal c
             then (case dropWhile isdecimal r of
                     d # e # _ \<Rightarrow> if d = 46 \<and> isspace e then Some indent else None
                   | _ \<Rightarrow> None)
             else None)"

function inline_code_sub :: "str \<Rightarrow> str" where
  "inline_code_sub [] = []"
| "inline_code_sub (c # cs) =
     (if c = 96 \<and> 96 \<in> set cs then inline_code_sub (tl (dropWhile (\<lambda>x. x \<noteq> 96) cs))
      else c # inline_code_sub cs)"
  by pat_completeness auto
termination
  by (relation "measure length")
    (auto simp: less_Suc_eq_le intro!: order_trans [OF diff_le_self length_dropWhile_le])

definition link_body :: "str \<Rightarrow> (str \<times> str \<times> str) option" where
  \<comment> \<open>The part of \<open>LINK_PAT\<close> after the optional exclamation mark, matched at the head of
      the text: the groups text and url, and what follows the match.\<close>
  "link_body s =
     (case s of
        [] \<Rightarrow> None
      | c # cs \<Rightarrow>
          if c \<noteq> 91 then None
          else (case dropWhile (\<lambda>x. x \<noteq> 93) cs of
                  _ # p # r \<Rightarrow>
                    let url = takeWhile (\<lambda>x. x \<noteq> 41) r
                    in if p = 40 \<and> url \<noteq> [] \<and> dropWhile (\<lambda>x. x \<noteq> 41) r \<noteq> []
                       then Some (takeWhile (\<lambda>x. x \<noteq> 93) cs, url,
                                  tl (dropWhile (\<lambda>x. x \<noteq> 41) r))
                       else None
                | _ \<Rightarrow> None))"

lemma link_body_shorter: "link_body s = Some (t, u, r) \<Longrightarrow> length r < length s"
proof -
  assume a: "link_body s = Some (t, u, r)"
  then obtain c cs where s: "s = c # cs"
    by (cases s) (auto simp: link_body_def)
  from a s obtain b p r' where d: "dropWhile (\<lambda>x. x \<noteq> 93) cs = b # p # r'"
    and r: "r = tl (dropWhile (\<lambda>x. x \<noteq> 41) r')"
    by (auto simp: link_body_def Let_def split: list.splits if_splits)
  have "length r \<le> length r'"
    unfolding r using length_dropWhile_le [of "\<lambda>x. x \<noteq> 41" r'] by simp
  moreover have "length (b # p # r') \<le> length cs"
    using length_dropWhile_le [of "\<lambda>x. x \<noteq> 93" cs] by (simp only: d)
  ultimately show ?thesis
    using s by simp
qed

function link_matches :: "nat \<Rightarrow> str \<Rightarrow> (nat \<times> str \<times> str) list" where
  "link_matches pos [] = []"
| "link_matches pos (c # cs) =
     (case (if c = 33 then link_body cs else None) of
        Some (t, u, r) \<Rightarrow> (pos, t, u) # link_matches (pos + (Suc (length cs) - length r)) r
      | None \<Rightarrow>
          (case link_body (c # cs) of
             Some (t, u, r) \<Rightarrow> (pos, t, u) # link_matches (pos + (Suc (length cs) - length r)) r
           | None \<Rightarrow> link_matches (Suc pos) cs))"
  by pat_completeness auto
termination
  by (relation "measure (\<lambda>(pos, s). length s)")
    (auto dest: link_body_shorter split: if_splits)

definition link_finditer :: "str \<Rightarrow> (nat \<times> str \<times> str) list" where
  \<comment> \<open>\<open>LINK_PAT.finditer(line)\<close>: the matches from left to right, none overlapping,
      each as \<open>lm.start()\<close> and the groups text and url.\<close>
  "link_finditer s = link_matches 0 s"

subsection \<open>urllib.parse.urlparse\<close>

text \<open>
  \<open>urlparse(url).scheme\<close> after CPython 3.11's \<open>urlsplit\<close>: leading C0 controls and
  spaces are stripped, tab, CR and LF removed, and the text before the first colon is the
  scheme when it starts with an ASCII letter and holds scheme characters only. A network
  location (after \<open>//\<close>, up to the first of \<open>/ ? #\<close>) with an unmatched square
  bracket raises ValueError. The library's two further validations
  (\<open>_check_bracketed_host\<close> on a location holding both brackets, \<open>_checknetloc\<close> on a
  location that is not ASCII) rest on \<open>ipaddress\<close> and \<open>unicodedata\<close>; they are the
  parameter \<open>V\<close>, which returns the exception raised, if any.
\<close>

definition scheme_char :: "nat \<Rightarrow> bool" where
  "scheme_char c =
     ((97 \<le> c \<and> c \<le> 122) \<or> (65 \<le> c \<and> c \<le> 90) \<or> (48 \<le> c \<and> c \<le> 57) \<or>
      c = 43 \<or> c = 45 \<or> c = 46)"

definition ascii_alpha :: "nat \<Rightarrow> bool" where
  "ascii_alpha c = ((97 \<le> c \<and> c \<le> 122) \<or> (65 \<le> c \<and> c \<le> 90))"

definition ascii_lower :: "nat \<Rightarrow> nat" where
  "ascii_lower c = (if 65 \<le> c \<and> c \<le> 90 then c + 32 else c)"

definition split_scheme :: "str \<Rightarrow> str \<times> str" where
  "split_scheme url =
     (let pre = takeWhile (\<lambda>c. c \<noteq> 58) url
      in if 58 \<in> set url \<and> pre \<noteq> [] \<and> ascii_alpha (hd url) \<and> list_all scheme_char pre
         then (map ascii_lower pre, drop (Suc (length pre)) url)
         else ([], url))"

definition netloc_of :: "str \<Rightarrow> str" where
  "netloc_of url =
     (if take 2 url = [47, 47]
      then takeWhile (\<lambda>c. c \<noteq> 47 \<and> c \<noteq> 63 \<and> c \<noteq> 35) (drop 2 url)
      else [])"

definition urlparse_scheme :: "(str \<Rightarrow> error option) \<Rightarrow> str \<Rightarrow> error + str" where
  "urlparse_scheme V url0 =
     (let url = filter (\<lambda>c. c \<noteq> 9 \<and> c \<noteq> 13 \<and> c \<noteq> 10) (dropWhile (\<lambda>c. c \<le> 32) url0);
          scheme = fst (split_scheme url);
          netloc = netloc_of (snd (split_scheme url))
      in if (91 \<in> set netloc \<and> 93 \<notin> set netloc) \<or> (93 \<in> set netloc \<and> 91 \<notin> set netloc)
         then Inl (ValueError (py ''Invalid IPv6 URL''))
         else if (91 \<in> set netloc \<and> 93 \<in> set netloc) \<or> list_ex (\<lambda>c. 128 \<le> c) netloc
         then (case V netloc of Some e \<Rightarrow> Inl e | None \<Rightarrow> Inr scheme)
         else Inr scheme)"

section \<open>The scanner: check\_file\<close>

text \<open>
  The local variables of \<open>check_file\<close> that live across lines (lines 87 to 94). The
  list \<open>issues\<close> is only ever appended to, so every step returns the issues it appends.
\<close>

record scan_state =
  in_fence :: bool
  fence_marker :: "nat option"
  fence_indent :: str
  last_heading_level :: nat
  seen_h1 :: bool
  table_block_pipe_counts :: "nat list"

definition init_state :: scan_state where
  "init_state =
     \<lparr>in_fence = False, fence_marker = None, fence_indent = [], last_heading_level = 0,
      seen_h1 = False, table_block_pipe_counts = []\<rparr>"

subsection \<open>The checks of one line outside a fence (lines 122 to 200)\<close>

definition trail_check :: "str \<Rightarrow> int \<Rightarrow> str \<Rightarrow> str \<Rightarrow> issue list" where
  \<comment> \<open>Lines 118-119 with the in-fence message, lines 123-124 with the other.\<close>
  "trail_check path i msg ln =
     (if trailing_space_search ln
      then [Issue path i (int (length ln)) (py ''W-TRAIL'') msg (slice_last ln 40)]
      else [])"

definition multiblank_check :: "str \<Rightarrow> str list \<Rightarrow> int \<Rightarrow> str \<Rightarrow> error + issue list" where
  \<comment> \<open>Lines 127-128. \<open>and\<close> evaluates from the left and stops at the first false operand.\<close>
  "multiblank_check path lines i ln =
     (if 3 \<le> i then
        (case getitem lines (i - 2) of
           Inl e \<Rightarrow> Inl e
         | Inr a \<Rightarrow>
             if strip a = [] then
               (case getitem lines (i - 1) of
                  Inl e \<Rightarrow> Inl e
                | Inr b \<Rightarrow>
                    if strip b = [] \<and> strip ln = []
                    then Inr [Issue path i 1 (py ''W-MULTIBLANK'') msg_multiblank []]
                    else Inr [])
             else Inr [])
      else Inr [])"

definition linelen_check :: "str \<Rightarrow> int \<Rightarrow> int \<Rightarrow> str \<Rightarrow> issue list" where
  \<comment> \<open>Lines 131-133.\<close>
  "linelen_check path max_len i ln =
     (let logical_line = inline_code_sub ln
      in if max_len < int (length logical_line)
         then [Issue path i (max_len + 1) (py ''W-LINELEN'')
                 (msg_linelen_1 @ str_int (int (length logical_line)) @ py '' > '' @
                  str_int max_len @ py ''.'')
                 (slice_to ln (max_len + 20))]
         else [])"

definition tab_check :: "str \<Rightarrow> int \<Rightarrow> str \<Rightarrow> error + issue list" where
  \<comment> \<open>Lines 136-137.\<close>
  "tab_check path i ln =
     (if 9 \<in> set ln then
        (case str_index ln 9 of
           Inl e \<Rightarrow> Inl e
         | Inr k \<Rightarrow>
             Inr [Issue path i (int k + 1) (py ''W-TAB'') msg_tab (take 80 (replace_tabs ln))])
      else Inr [])"

definition heading_check ::
  "str \<Rightarrow> int \<Rightarrow> str \<Rightarrow> nat \<Rightarrow> bool \<Rightarrow> issue list \<times> nat \<times> bool" where
  \<comment> \<open>Lines 140-160: the issues, then the new \<open>last_heading_level\<close> and \<open>seen_h1\<close>.\<close>
  "heading_check path i ln last_level seen =
     (case heading_match ln of
        None \<Rightarrow> ([], last_level, seen)
      | Some (hashes, text) \<Rightarrow>
          let level = length hashes in
          ((if take (length (hashes @ [32])) ln = hashes @ [32] then []
            else [Issue path i (int (length hashes) + 1) (py ''E-HEADSPACE'') msg_headspace
                    (take 80 ln)]) @
           (if strip text = []
            then [Issue path i (int (length hashes) + 2) (py ''E-EMPTYHEAD'') msg_emptyhead
                    (take 80 ln)]
            else []) @
           (if level = 1 \<and> seen
            then [Issue path i 1 (py ''W-MULTIH1'') msg_multih1 (take 80 ln)]
            else []) @
           (if last_level \<noteq> 0 \<and> 1 < int level - int last_level
            then [Issue path i 1 (py ''W-HEADJUMP'')
                    (msg_headjump_1 @ str_int (int last_level) @ msg_headjump_2 @
                     str_int (int level) @ msg_headjump_3)
                    (take 80 ln)]
            else []),
           level,
           (if level = 1 then True else seen)))"

definition link_check ::
  "(str \<Rightarrow> error option) \<Rightarrow> str \<Rightarrow> int \<Rightarrow> str \<Rightarrow> nat \<times> str \<times> str \<Rightarrow> error + issue list" where
  \<comment> \<open>Lines 164-176, the body of the loop over the matches.\<close>
  "link_check V path i ln lm =
     (case lm of (start, text, url) \<Rightarrow>
        (case getitem ln (int start) of
           Inl e \<Rightarrow> Inl e
         | Inr c0 \<Rightarrow>
             let is_image = (c0 = 33) in
             (case urlparse_scheme V url of
                Inl e \<Rightarrow> Inl e
              | Inr scheme \<Rightarrow>
                  Inr ((if strip text = []
                        then [Issue path i (int start + 1)
                                (if is_image then py ''E-NOALTTEXT'' else py ''W-EMPTYLINKTEXT'')
                                (if is_image then msg_noalttext else msg_emptylinktext)
                                (take 120 ln)]
                        else []) @
                       (if strip url = []
                        then [Issue path i (int start + 1) (py ''E-EMPTYURL'') msg_emptyurl
                                (take 120 ln)]
                        else []) @
                       (if scheme \<noteq> [] \<and> scheme \<noteq> py ''http'' \<and> scheme \<noteq> py ''https'' \<and>
                           scheme \<noteq> py ''mailto''
                        then [Issue path i (int start + 1) (py ''W-SCHEME'')
                                (msg_scheme_1 @ scheme @ py [CHR 0x27, CHR ''.''])
                                (take 120 url)]
                        else [])))))"

fun links_check ::
  "(str \<Rightarrow> error option) \<Rightarrow> str \<Rightarrow> int \<Rightarrow> str \<Rightarrow> (nat \<times> str \<times> str) list \<Rightarrow> error + issue list" where
  "links_check V path i ln [] = Inr []"
| "links_check V path i ln (lm # lms) =
     (case link_check V path i ln lm of
        Inl e \<Rightarrow> Inl e
      | Inr new \<Rightarrow>
          (case links_check V path i ln lms of
             Inl e \<Rightarrow> Inl e
           | Inr later \<Rightarrow> Inr (new @ later)))"

definition table_mismatches :: "str \<Rightarrow> int \<Rightarrow> nat list \<Rightarrow> error + issue list" where
  \<comment> \<open>Lines 189-192 and again 208-211: the majority count, one issue per other entry.\<close>
  "table_mismatches path at counts =
     (case max_key (count_list counts) (set_iter counts) of
        Inl e \<Rightarrow> Inl e
      | Inr exp \<Rightarrow>
          Inr (map (\<lambda>cnt. Issue path at 1 (py ''W-TABLEPIPES'')
                     (msg_tablepipes_1 @ str_int (int exp) @ msg_tablepipes_2 @
                      str_int (int cnt) @ py '').'')
                     [])
                 (filter (\<lambda>cnt. cnt \<noteq> exp) counts)))"

definition table_check ::
  "str \<Rightarrow> int \<Rightarrow> str \<Rightarrow> nat list \<Rightarrow> error + (issue list \<times> nat list)" where
  \<comment> \<open>Lines 179-193: the issues and the new \<open>table_block_pipe_counts\<close>.\<close>
  "table_check path i ln counts =
     (if table_line_match ln then Inr ([], counts @ [count_list ln 124])
      else if counts \<noteq> [] then
        (case table_mismatches path i counts of
           Inl e \<Rightarrow> Inl e
         | Inr new \<Rightarrow> Inr (new, []))
      else Inr ([], counts))"

definition list_check :: "str \<Rightarrow> int \<Rightarrow> str \<Rightarrow> issue list" where
  \<comment> \<open>Lines 196-200.\<close>
  "list_check path i ln =
     (case list_marker_match ln of
        None \<Rightarrow> []
      | Some indent \<Rightarrow>
          if 9 \<in> set indent
          then [Issue path i 1 (py ''W-LISTTAB'') msg_listtab (take 80 ln)]
          else [])"

definition prose_checks ::
  "(str \<Rightarrow> error option) \<Rightarrow> str \<Rightarrow> str list \<Rightarrow> int \<Rightarrow> int \<Rightarrow> str \<Rightarrow> scan_state \<Rightarrow>
     error + (scan_state \<times> issue list)" where
  \<comment> \<open>Lines 122-200 in their order; an exception in one check ends the scan.\<close>
  "prose_checks V path lines max_len i ln st =
     (case multiblank_check path lines i ln of
        Inl e \<Rightarrow> Inl e
      | Inr blank \<Rightarrow>
     (case tab_check path i ln of
        Inl e \<Rightarrow> Inl e
      | Inr tab \<Rightarrow>
     (case heading_check path i ln (last_heading_level st) (seen_h1 st) of
        (head, level, seen) \<Rightarrow>
     (case links_check V path i ln (link_finditer ln) of
        Inl e \<Rightarrow> Inl e
      | Inr links \<Rightarrow>
     (case table_check path i ln (table_block_pipe_counts st) of
        Inl e \<Rightarrow> Inl e
      | Inr (table, counts) \<Rightarrow>
          Inr (st\<lparr>last_heading_level := level, seen_h1 := seen,
                   table_block_pipe_counts := counts\<rparr>,
               trail_check path i msg_trail ln @ blank @ linelen_check path max_len i ln @
               tab @ head @ links @ table @ list_check path i ln))))))"

subsection \<open>One iteration of the loop (lines 97 to 200)\<close>

definition scan_line ::
  "(str \<Rightarrow> error option) \<Rightarrow> str \<Rightarrow> str list \<Rightarrow> int \<Rightarrow> int \<Rightarrow> str \<Rightarrow> scan_state \<Rightarrow>
     error + (scan_state \<times> issue list)" where
  "scan_line V path lines max_len i ln st =
     (case code_fence_match ln of
        Some (indent, marker, info) \<Rightarrow>
          (case getitem marker 0 of
             Inl e \<Rightarrow> Inl e
           | Inr m0 \<Rightarrow>
               if \<not> in_fence st
               then Inr (st\<lparr>in_fence := True, fence_marker := Some m0, fence_indent := indent\<rparr>, [])
               else if Some m0 = fence_marker st \<and> indent = fence_indent st
               then Inr (st\<lparr>in_fence := False, fence_marker := None, fence_indent := []\<rparr>, [])
               else Inr (st, []))
      | None \<Rightarrow>
          if in_fence st then Inr (st, trail_check path i msg_trail_fence ln)
          else prose_checks V path lines max_len i ln st)"

subsection \<open>The loop, the checks around it, and check\_file\<close>

fun scan_lines ::
  "(str \<Rightarrow> error option) \<Rightarrow> str \<Rightarrow> str list \<Rightarrow> int \<Rightarrow> int \<Rightarrow> str list \<Rightarrow> scan_state \<Rightarrow>
     error + (scan_state \<times> issue list)" where
  \<comment> \<open>\<open>for i, orig_line in enumerate(lines, start=1)\<close>, from index \<open>i\<close> over the lines left.\<close>
  "scan_lines V path lines max_len i [] st = Inr (st, [])"
| "scan_lines V path lines max_len i (ln # rest) st =
     (case scan_line V path lines max_len i ln st of
        Inl e \<Rightarrow> Inl e
      | Inr (st', new) \<Rightarrow>
          (case scan_lines V path lines max_len (i + 1) rest st' of
             Inl e \<Rightarrow> Inl e
           | Inr (st'', later) \<Rightarrow> Inr (st'', new @ later)))"

definition scan_text ::
  "(str \<Rightarrow> error option) \<Rightarrow> str \<Rightarrow> str \<Rightarrow> int \<Rightarrow> error + issue list" where
  \<comment> \<open>Lines 78-212 of \<open>check_file\<close>: what it does with the text it has read.\<close>
  "scan_text V path raw max_len =
     (let lines = splitlines raw in
      case scan_lines V path lines max_len 1 lines init_state of
        Inl e \<Rightarrow> Inl e
      | Inr (st, found) \<Rightarrow>
          (case (if table_block_pipe_counts st \<noteq> []
                 then table_mismatches path (int (length lines)) (table_block_pipe_counts st)
                 else Inr []) of
             Inl e \<Rightarrow> Inl e
           | Inr table \<Rightarrow>
               Inr ((if crlf_search raw
                     then [Issue path 1 1 (py ''W-CRLF'') msg_crlf []] else []) @
                    (if \<not> endswith_newline raw
                     then [Issue path 0 0 (py ''W-NOEOFNL'') msg_noeofnl []] else []) @
                    found @
                    (if in_fence st
                     then [Issue path (int (length lines)) 1 (py ''E-FENCE'') msg_fence []]
                     else []) @
                    table)))"

definition check_file ::
  "(str \<Rightarrow> error option) \<Rightarrow> (str \<Rightarrow> str list \<Rightarrow> error + issue list) \<Rightarrow> str \<Rightarrow> str + str \<Rightarrow>
     int \<Rightarrow> bool \<Rightarrow> error + issue list" where
  \<comment> \<open>\<open>check_file(path, max_len, check_links)\<close>. Reading the file gives \<open>Inr raw\<close>, the
      decoded text, or \<open>Inl cause\<close>, the text of the exception caught at line 74.
      \<open>probe\<close> stands for \<open>check_http_links\<close>, whose result depends on the network.\<close>
  "check_file V probe path contents max_len check_links =
     (case contents of
        Inl cause \<Rightarrow> Inr [Issue path 0 0 (py ''E-READ'') (msg_read @ cause) []]
      | Inr raw \<Rightarrow>
          (case scan_text V path raw max_len of
             Inl e \<Rightarrow> Inl e
           | Inr found \<Rightarrow>
               if check_links then
                 (case probe path (splitlines raw) of
                    Inl e \<Rightarrow> Inl e
                  | Inr later \<Rightarrow> Inr (found @ later))
               else Inr found))"

section \<open>What the specification calls fence, prose line, previous level and table run\<close>

text \<open>
  These follow the words of the specification's scan state (section 3) and of steps 1, 2,
  7 and 9 of its per-line pass; the theorems below compare them with what the loop keeps
  in its variables.
\<close>

definition fence_next :: "(nat \<times> str) option \<Rightarrow> str \<Rightarrow> (nat \<times> str) option" where
  \<comment> \<open>Step 1. The open fence is its delimiter character and indentation. A fence line
      opens a fence when none is open, closes the open one when both agree with it, and
      otherwise changes nothing; no other line changes anything.\<close>
  "fence_next f ln =
     (case code_fence_match ln of
        None \<Rightarrow> f
      | Some (indent, marker, info) \<Rightarrow>
          (case f of
             None \<Rightarrow> Some (hd marker, indent)
           | Some (ch, ind) \<Rightarrow> if hd marker = ch \<and> indent = ind then None else f))"

definition open_fence :: "str list \<Rightarrow> (nat \<times> str) option" where
  \<comment> \<open>The fence left open by these lines, read from the start of a document.\<close>
  "open_fence lns = foldl fence_next None lns"

definition outside_fence :: "str list \<Rightarrow> nat \<Rightarrow> bool" where
  \<comment> \<open>Line \<open>k\<close> (counted from 0) is neither a fence line nor inside an open fence: it is
      a line on which checks 3 to 10 run.\<close>
  "outside_fence lns k = (open_fence (take k lns) = None \<and> code_fence_match (lns ! k) = None)"

definition prose_lines :: "str list \<Rightarrow> str list" where
  "prose_lines lns = map (\<lambda>k. lns ! k) (filter (outside_fence lns) [0..<length lns])"

definition heading_level :: "str \<Rightarrow> nat" where
  "heading_level ln = (case heading_match ln of None \<Rightarrow> 0 | Some (hashes, text) \<Rightarrow> length hashes)"

definition previous_level :: "str list \<Rightarrow> nat" where
  \<comment> \<open>The level of the last heading among these lines, 0 when there is none.\<close>
  "previous_level lns =
     (case rev (filter (\<lambda>ln. heading_match ln \<noteq> None) lns) of
        [] \<Rightarrow> 0
      | h # _ \<Rightarrow> heading_level h)"

definition pipe_run :: "str list \<Rightarrow> nat list" where
  \<comment> \<open>The pipe counts of the table rows that end these lines with no gap.\<close>
  "pipe_run lns = map (\<lambda>ln. count_list ln 124) (rev (takeWhile table_line_match (rev lns)))"

definition blank :: "str \<Rightarrow> bool" where
  "blank ln = (strip ln = [])"

text \<open>What the loop variables hold after the lines \<open>xs\<close>, in the specification's terms.\<close>

definition tracks :: "str list \<Rightarrow> scan_state \<Rightarrow> bool" where
  "tracks xs st =
     (open_fence xs =
        (if in_fence st then map_option (\<lambda>c. (c, fence_indent st)) (fence_marker st) else None) \<and>
      in_fence st = (fence_marker st \<noteq> None) \<and>
      last_heading_level st = previous_level (prose_lines xs) \<and>
      table_block_pipe_counts st = pipe_run (prose_lines xs))"

section \<open>How the loop composes, and where its issues are located\<close>

text \<open>No line of \<open>raw.splitlines()\<close> holds a line boundary, a newline in particular.\<close>

lemma splitlines_from_no_linebreak:
  "\<forall>d \<in> set cur. \<not> is_linebreak d \<Longrightarrow> ln \<in> set (splitlines_from cur rest) \<Longrightarrow>
     \<forall>c \<in> set ln. \<not> is_linebreak c"
proof (induction cur rest rule: splitlines_from.induct)
  case (1 cur)
  then show ?case by (auto split: if_splits)
next
  case (2 cur d ds)
  show ?case
  proof (cases "d = 13 \<and> ds \<noteq> [] \<and> hd ds = 10")
    case True
    with "2.prems" "2.IH"(1) show ?thesis by auto
  next
    case nocrlf: False
    show ?thesis
    proof (cases "is_linebreak d")
      case True
      with nocrlf "2.prems" "2.IH"(2) show ?thesis by auto
    next
      case False
      with "2.prems"(1) have "\<forall>x \<in> set (cur @ [d]). \<not> is_linebreak x" by simp
      moreover from False nocrlf "2.prems"(2) have "ln \<in> set (splitlines_from (cur @ [d]) ds)"
        by auto
      ultimately show ?thesis
        using "2.IH"(3) [OF nocrlf False] by blast
    qed
  qed
qed

lemma splitlines_no_linebreak:
  "ln \<in> set (splitlines raw) \<Longrightarrow> c \<in> set ln \<Longrightarrow> \<not> is_linebreak c"
  using splitlines_from_no_linebreak [of "[]" ln raw] by (simp add: splitlines_def)

lemma scan_lines_append:
  "scan_lines V path L m i (xs @ ys) st =
     (case scan_lines V path L m i xs st of
        Inl e \<Rightarrow> Inl e
      | Inr (st1, a) \<Rightarrow>
          (case scan_lines V path L m (i + int (length xs)) ys st1 of
             Inl e \<Rightarrow> Inl e
           | Inr (st2, b) \<Rightarrow> Inr (st2, a @ b)))"
proof (induction xs arbitrary: i st)
  case Nil
  show ?case by (simp split: sum.splits)
next
  case (Cons x xs)
  show ?case
    by (auto simp: Cons.IH algebra_simps split: sum.splits prod.splits)
qed

lemma trail_check_line: "x \<in> set (trail_check path i msg ln) \<Longrightarrow> line x = i \<and> code x = py ''W-TRAIL''"
  by (auto simp: trail_check_def Issue_def split: if_splits)

lemma multiblank_check_line:
  "multiblank_check path L i ln = Inr b \<Longrightarrow> x \<in> set b \<Longrightarrow> line x = i \<and> code x = py ''W-MULTIBLANK''"
  by (auto simp: multiblank_check_def Issue_def split: if_splits sum.splits)

lemma linelen_check_line: "x \<in> set (linelen_check path m i ln) \<Longrightarrow> line x = i \<and> code x = py ''W-LINELEN''"
  by (auto simp: linelen_check_def Issue_def Let_def split: if_splits)

lemma tab_check_line: "tab_check path i ln = Inr b \<Longrightarrow> x \<in> set b \<Longrightarrow> line x = i \<and> code x = py ''W-TAB''"
  by (auto simp: tab_check_def Issue_def split: if_splits sum.splits)

lemma heading_check_line:
  "heading_check path i ln lv seen = (b, lv', seen') \<Longrightarrow> x \<in> set b \<Longrightarrow>
     line x = i \<and> code x \<in> {py ''E-HEADSPACE'', py ''E-EMPTYHEAD'', py ''W-MULTIH1'', py ''W-HEADJUMP''}"
  by (auto simp: heading_check_def Issue_def Let_def split: if_splits option.splits)

lemma link_check_line:
  "link_check V path i ln lm = Inr b \<Longrightarrow> x \<in> set b \<Longrightarrow>
     line x = i \<and> code x \<in> {py ''E-NOALTTEXT'', py ''W-EMPTYLINKTEXT'', py ''E-EMPTYURL'', py ''W-SCHEME''}"
  by (auto simp: link_check_def Issue_def Let_def split: if_splits sum.splits prod.splits)

lemma links_check_line:
  "links_check V path i ln lms = Inr b \<Longrightarrow> x \<in> set b \<Longrightarrow>
     line x = i \<and> code x \<in> {py ''E-NOALTTEXT'', py ''W-EMPTYLINKTEXT'', py ''E-EMPTYURL'', py ''W-SCHEME''}"
proof (induction lms arbitrary: b)
  case Nil
  then show ?case by simp
next
  case (Cons lm lms)
  then show ?case
    by (auto split: sum.splits dest: link_check_line)
qed

lemma table_mismatches_line:
  "table_mismatches path at counts = Inr b \<Longrightarrow> x \<in> set b \<Longrightarrow> line x = at \<and> code x = py ''W-TABLEPIPES''"
  by (auto simp: table_mismatches_def Issue_def split: sum.splits)

lemma table_check_line:
  "table_check path i ln counts = Inr (b, counts') \<Longrightarrow> x \<in> set b \<Longrightarrow> line x = i \<and> code x = py ''W-TABLEPIPES''"
  by (auto simp: table_check_def split: if_splits sum.splits dest: table_mismatches_line)

lemma list_check_line: "x \<in> set (list_check path i ln) \<Longrightarrow> line x = i \<and> code x = py ''W-LISTTAB''"
  by (auto simp: list_check_def Issue_def split: if_splits option.splits)

lemma prose_checks_line:
  assumes "prose_checks V path L m i ln st = Inr (st', new)" and "x \<in> set new"
  shows "line x = i"
  using assms
  by (auto simp: prose_checks_def split: sum.splits prod.splits
      dest: trail_check_line multiblank_check_line linelen_check_line tab_check_line
        heading_check_line links_check_line table_check_line list_check_line)

lemma scan_line_line:
  assumes "scan_line V path L m i ln st = Inr (st', new)" and "x \<in> set new"
  shows "line x = i"
  using assms
  by (auto simp: scan_line_def split: sum.splits prod.splits option.splits if_splits
      dest: trail_check_line prose_checks_line)

lemma scan_lines_line:
  "scan_lines V path L m i xs st = Inr (st', found) \<Longrightarrow> x \<in> set found \<Longrightarrow>
     i \<le> line x \<and> line x < i + int (length xs)"
proof (induction xs arbitrary: i st found)
  case Nil
  then show ?case by simp
next
  case (Cons ln xs)
  from Cons.prems(1) obtain st1 new later where
    1: "scan_line V path L m i ln st = Inr (st1, new)" and
    2: "scan_lines V path L m (i + 1) xs st1 = Inr (st', later)" and
    3: "found = new @ later"
    by (auto split: sum.splits prod.splits)
  from Cons.prems(2) 3 consider "x \<in> set new" | "x \<in> set later" by auto
  then show ?case
  proof cases
    case 1
    with \<open>scan_line V path L m i ln st = Inr (st1, new)\<close> have "line x = i"
      by (rule scan_line_line)
    then show ?thesis by simp
  next
    case 2
    with Cons.IH [OF \<open>scan_lines V path L m (i + 1) xs st1 = Inr (st', later)\<close>]
    show ?thesis by simp
  qed
qed

text \<open>The scan of a document, cut at line \<open>k\<close>.\<close>

lemma scan_lines_cut:
  assumes "scan_lines V path L m i (xs @ ln # ys) st0 = Inr (stn, found)"
  shows "\<exists>st before st' new later.
           scan_lines V path L m i xs st0 = Inr (st, before) \<and>
           scan_line V path L m (i + int (length xs)) ln st = Inr (st', new) \<and>
           scan_lines V path L m (i + int (length xs) + 1) ys st' = Inr (stn, later) \<and>
           found = before @ new @ later"
  using assms by (auto simp: scan_lines_append split: sum.splits prod.splits)

lemma scan_lines_split:
  assumes "scan_lines V path L m 1 R st0 = Inr (stn, found)" and "k < length R"
  obtains st before st' new later where
    "scan_lines V path L m 1 (take k R) st0 = Inr (st, before)"
    "scan_line V path L m (int k + 1) (R ! k) st = Inr (st', new)"
    "scan_lines V path L m (int k + 2) (drop (Suc k) R) st' = Inr (stn, later)"
    "found = before @ new @ later"
proof -
  have R: "R = take k R @ R ! k # drop (Suc k) R"
    using assms(2) by (simp add: Cons_nth_drop_Suc)
  have len: "int (length (take k R)) = int k"
    using assms(2) by simp
  from assms(1) have "scan_lines V path L m 1 (take k R @ R ! k # drop (Suc k) R) st0 = Inr (stn, found)"
    using R by simp
  from scan_lines_cut [OF this] show ?thesis
    unfolding len by (auto intro: that simp: algebra_simps)
qed

section \<open>The loop variables follow the specification's scan state\<close>

lemma open_fence_snoc: "open_fence (xs @ [x]) = fence_next (open_fence xs) x"
  by (simp add: open_fence_def)

lemma outside_fence_append: "k < length xs \<Longrightarrow> outside_fence (xs @ ys) k = outside_fence xs k"
  by (simp add: outside_fence_def nth_append)

lemma prose_lines_snoc:
  "prose_lines (xs @ [x]) =
     prose_lines xs @ (if open_fence xs = None \<and> code_fence_match x = None then [x] else [])"
proof -
  have f: "filter (outside_fence (xs @ [x])) [0..<length xs] = filter (outside_fence xs) [0..<length xs]"
    by (rule filter_cong) (auto simp: outside_fence_append)
  have m: "map (\<lambda>k. (xs @ [x]) ! k) (filter (outside_fence xs) [0..<length xs]) =
           map (\<lambda>k. xs ! k) (filter (outside_fence xs) [0..<length xs])"
    by (rule map_cong) (auto simp: nth_append)
  have l: "outside_fence (xs @ [x]) (length xs) = (open_fence xs = None \<and> code_fence_match x = None)"
    by (simp add: outside_fence_def)
  show ?thesis
    by (simp add: prose_lines_def f m l)
qed

lemma previous_level_snoc:
  "previous_level (xs @ [x]) = (if heading_match x = None then previous_level xs else heading_level x)"
  by (simp add: previous_level_def)

lemma pipe_run_snoc:
  "pipe_run (xs @ [x]) = (if table_line_match x then pipe_run xs @ [count_list x 124] else [])"
  by (simp add: pipe_run_def)

lemma heading_check_level:
  "heading_check path i ln lv seen = (b, lv', seen') \<Longrightarrow>
     lv' = (if heading_match ln = None then lv else heading_level ln)"
  by (auto simp: heading_check_def heading_level_def Let_def split: option.splits)

lemma table_check_counts:
  "table_check path i ln counts = Inr (b, counts') \<Longrightarrow>
     counts' = (if table_line_match ln then counts @ [count_list ln 124] else [])"
  by (auto simp: table_check_def split: if_splits sum.splits)

lemma tracks_init: "tracks [] init_state"
  by (simp add: tracks_def init_state_def open_fence_def prose_lines_def previous_level_def pipe_run_def)

lemma getitem_0: "getitem xs 0 = Inr a \<Longrightarrow> xs \<noteq> [] \<and> a = hd xs"
  by (cases xs) (auto simp: getitem_def)

lemma prose_checks_state:
  "prose_checks V path L m i ln st = Inr (st', new) \<Longrightarrow>
     in_fence st' = in_fence st \<and> fence_marker st' = fence_marker st \<and>
     fence_indent st' = fence_indent st \<and>
     last_heading_level st' =
       (if heading_match ln = None then last_heading_level st else heading_level ln) \<and>
     table_block_pipe_counts st' =
       (if table_line_match ln then table_block_pipe_counts st @ [count_list ln 124] else [])"
  by (auto simp: prose_checks_def split: sum.splits prod.splits
      dest: heading_check_level table_check_counts)

lemma scan_line_tracks:
  assumes "tracks xs st" and "scan_line V path L m i ln st = Inr (st', new)"
  shows "tracks (xs @ [ln]) st'"
proof (cases "code_fence_match ln")
  case None
  show ?thesis
  proof (cases "in_fence st")
    case True
    with None assms show ?thesis
      by (auto simp: scan_line_def tracks_def open_fence_snoc fence_next_def prose_lines_snoc)
  next
    case False
    with None assms(2) have "prose_checks V path L m i ln st = Inr (st', new)"
      by (simp add: scan_line_def)
    from prose_checks_state [OF this] None False assms(1) show ?thesis
      by (simp add: tracks_def open_fence_snoc fence_next_def prose_lines_snoc
          previous_level_snoc pipe_run_snoc)
  qed
next
  case (Some g)
  obtain indent marker info where g: "g = (indent, marker, info)"
    by (cases g)
  from assms(2) Some g obtain m0 where m0: "getitem marker 0 = Inr m0"
    by (auto simp: scan_line_def split: sum.splits)
  from getitem_0 [OF m0] have hd: "m0 = hd marker" by simp
  from assms Some g m0 hd show ?thesis
    by (auto simp: scan_line_def tracks_def open_fence_snoc fence_next_def prose_lines_snoc
        split: if_splits)
qed

lemma scan_lines_tracks_from:
  "tracks ys st0 \<Longrightarrow> scan_lines V path L m i xs st0 = Inr (st, found) \<Longrightarrow> tracks (ys @ xs) st"
proof (induction xs arbitrary: ys st0 i found)
  case Nil
  then show ?case by simp
next
  case (Cons ln xs)
  from Cons.prems(2) obtain st1 new later where
    1: "scan_line V path L m i ln st0 = Inr (st1, new)" and
    2: "scan_lines V path L m (i + 1) xs st1 = Inr (st, later)"
    by (auto split: sum.splits prod.splits)
  from scan_line_tracks [OF Cons.prems(1) 1] have "tracks (ys @ [ln]) st1" .
  from Cons.IH [OF this 2] show ?case by simp
qed

lemma scan_lines_tracks:
  "scan_lines V path L m i xs init_state = Inr (st, found) \<Longrightarrow> tracks xs st"
  using scan_lines_tracks_from [OF tracks_init] by fastforce

lemma tracks_in_fence: "tracks xs st \<Longrightarrow> in_fence st = (open_fence xs \<noteq> None)"
  by (auto simp: tracks_def)

lemma scan_line_prose:
  assumes "scan_line V path L m i ln st = Inr (st', new)"
    and "code_fence_match ln = None" and "\<not> in_fence st"
  shows "prose_checks V path L m i ln st = Inr (st', new)"
  using assms by (simp add: scan_line_def)

section \<open>The issues of a document, line by line\<close>

lemma scan_text_parts:
  assumes "scan_text V path raw m = Inr issues"
  obtains st found table where
    "scan_lines V path (splitlines raw) m 1 (splitlines raw) init_state = Inr (st, found)"
    "(if table_block_pipe_counts st \<noteq> []
      then table_mismatches path (int (length (splitlines raw))) (table_block_pipe_counts st)
      else Inr []) = Inr table"
    "issues =
       (if crlf_search raw then [Issue path 1 1 (py ''W-CRLF'') msg_crlf []] else []) @
       (if \<not> endswith_newline raw then [Issue path 0 0 (py ''W-NOEOFNL'') msg_noeofnl []] else []) @
       found @
       (if in_fence st
        then [Issue path (int (length (splitlines raw))) 1 (py ''E-FENCE'') msg_fence []]
        else []) @
       table"
  using assms unfolding scan_text_def Let_def
  by (auto split: sum.splits prod.splits)

lemma final_table_codes:
  assumes "(if counts \<noteq> [] then table_mismatches path at counts else Inr []) = Inr table"
    and "x \<in> set table"
  shows "code x = py ''W-TABLEPIPES''"
  using assms by (auto split: if_splits dest: table_mismatches_line)

lemma filter_none: "(\<And>x. x \<in> set xs \<Longrightarrow> \<not> P x) \<Longrightarrow> filter P xs = []"
  by (simp add: filter_empty_conv)

lemma filter_all: "(\<And>x. x \<in> set xs \<Longrightarrow> Q x) \<Longrightarrow> filter (\<lambda>x. P x \<and> Q x) xs = filter P xs"
  by (rule filter_cong) auto

text \<open>The issues of one code at one line are those the iteration for that line appends.\<close>

lemma scan_text_at_line:
  assumes ok: "scan_text V path raw m = Inr issues" and k: "k < length (splitlines raw)"
    and c: "c \<noteq> py ''W-CRLF''" "c \<noteq> py ''W-NOEOFNL''" "c \<noteq> py ''E-FENCE''"
      "c \<noteq> py ''W-TABLEPIPES''"
  obtains st before st' new where
    "scan_lines V path (splitlines raw) m 1 (take k (splitlines raw)) init_state = Inr (st, before)"
    "scan_line V path (splitlines raw) m (int k + 1) (splitlines raw ! k) st = Inr (st', new)"
    "filter (\<lambda>x. code x = c \<and> line x = int k + 1) issues = filter (\<lambda>x. code x = c) new"
proof -
  let ?L = "splitlines raw"
  from scan_text_parts [OF ok] obtain stn found table where
    run: "scan_lines V path ?L m 1 ?L init_state = Inr (stn, found)" and
    tab: "(if table_block_pipe_counts stn \<noteq> []
           then table_mismatches path (int (length ?L)) (table_block_pipe_counts stn)
           else Inr []) = Inr table" and
    iss: "issues =
       (if crlf_search raw then [Issue path 1 1 (py ''W-CRLF'') msg_crlf []] else []) @
       (if \<not> endswith_newline raw then [Issue path 0 0 (py ''W-NOEOFNL'') msg_noeofnl []] else []) @
       found @
       (if in_fence stn then [Issue path (int (length ?L)) 1 (py ''E-FENCE'') msg_fence []] else []) @
       table"
    by blast
  from scan_lines_split [OF run k] obtain st before st' new later where
    1: "scan_lines V path ?L m 1 (take k ?L) init_state = Inr (st, before)" and
    2: "scan_line V path ?L m (int k + 1) (?L ! k) st = Inr (st', new)" and
    3: "scan_lines V path ?L m (int k + 2) (drop (Suc k) ?L) st' = Inr (stn, later)" and
    4: "found = before @ new @ later"
    by blast
  let ?P = "\<lambda>x. code x = c \<and> line x = int k + 1"
  have b: "filter ?P before = []"
  proof (rule filter_none)
    fix x assume "x \<in> set before"
    from scan_lines_line [OF 1 this] k show "\<not> ?P x" by simp
  qed
  have l: "filter ?P later = []"
  proof (rule filter_none)
    fix x assume "x \<in> set later"
    from scan_lines_line [OF 3 this] show "\<not> ?P x" by simp
  qed
  have n: "filter ?P new = filter (\<lambda>x. code x = c) new"
    by (rule filter_all) (rule scan_line_line [OF 2])
  have t: "filter ?P table = []"
  proof (rule filter_none)
    fix x assume "x \<in> set table"
    from final_table_codes [OF tab this] c(4) show "\<not> ?P x" by simp
  qed
  have "filter ?P issues = filter (\<lambda>x. code x = c) new"
    unfolding iss 4 using c(1-3) by (simp add: b l n t Issue_def)
  with 1 2 show ?thesis by (rule that)
qed

lemma prose_checks_new:
  assumes "prose_checks V path L m i ln st = Inr (st', new)"
  obtains blank tab links table counts where
    "multiblank_check path L i ln = Inr blank"
    "tab_check path i ln = Inr tab"
    "links_check V path i ln (link_finditer ln) = Inr links"
    "table_check path i ln (table_block_pipe_counts st) = Inr (table, counts)"
    "new = trail_check path i msg_trail ln @ blank @ linelen_check path m i ln @ tab @
           fst (heading_check path i ln (last_heading_level st) (seen_h1 st)) @ links @ table @
           list_check path i ln"
  using assms unfolding prose_checks_def
  by (auto split: sum.splits prod.splits)

lemma filter_code_none:
  "(\<And>x. x \<in> set xs \<Longrightarrow> code x \<in> S) \<Longrightarrow> c \<notin> S \<Longrightarrow> filter (\<lambda>x. code x = c) xs = []"
  by (auto simp: filter_empty_conv)

lemma filter_code_all:
  "(\<And>x. x \<in> set xs \<Longrightarrow> code x = c) \<Longrightarrow> filter (\<lambda>x. code x = c) xs = xs"
  by (simp add: filter_id_conv)

lemma heading_codes:
  "x \<in> set (fst (heading_check path i ln lv seen)) \<Longrightarrow>
     code x \<in> {py ''E-HEADSPACE'', py ''E-EMPTYHEAD'', py ''W-MULTIH1'', py ''W-HEADJUMP''}"
  using heading_check_line [of path i ln lv seen] by (cases "heading_check path i ln lv seen") auto

text \<open>One code at a time: which check of \<open>prose_checks\<close> its issues come from.\<close>

lemma prose_checks_filter:
  assumes "prose_checks V path L m i ln st = Inr (st', new)"
  shows "filter (\<lambda>x. code x = py ''W-TRAIL'') new = trail_check path i msg_trail ln"
    and "multiblank_check path L i ln = Inr (filter (\<lambda>x. code x = py ''W-MULTIBLANK'') new)"
    and "c = py ''E-HEADSPACE'' \<or> c = py ''W-HEADJUMP'' \<Longrightarrow>
         filter (\<lambda>x. code x = c) new =
         filter (\<lambda>x. code x = c) (fst (heading_check path i ln (last_heading_level st) (seen_h1 st)))"
proof -
  from prose_checks_new [OF assms] obtain blank tab links table counts where
    b: "multiblank_check path L i ln = Inr blank" and
    t: "tab_check path i ln = Inr tab" and
    l: "links_check V path i ln (link_finditer ln) = Inr links" and
    p: "table_check path i ln (table_block_pipe_counts st) = Inr (table, counts)" and
    new: "new = trail_check path i msg_trail ln @ blank @ linelen_check path m i ln @ tab @
           fst (heading_check path i ln (last_heading_level st) (seen_h1 st)) @ links @ table @
           list_check path i ln"
    by blast
  let ?head = "fst (heading_check path i ln (last_heading_level st) (seen_h1 st))"
  have trail: "\<And>x. x \<in> set (trail_check path i msg_trail ln) \<Longrightarrow> code x \<in> {py ''W-TRAIL''}"
    by (simp add: trail_check_line)
  have blank: "\<And>x. x \<in> set blank \<Longrightarrow> code x \<in> {py ''W-MULTIBLANK''}"
    using multiblank_check_line [OF b] by simp
  have len: "\<And>x. x \<in> set (linelen_check path m i ln) \<Longrightarrow> code x \<in> {py ''W-LINELEN''}"
    by (simp add: linelen_check_line)
  have tab: "\<And>x. x \<in> set tab \<Longrightarrow> code x \<in> {py ''W-TAB''}"
    using tab_check_line [OF t] by simp
  have head: "\<And>x. x \<in> set ?head \<Longrightarrow>
      code x \<in> {py ''E-HEADSPACE'', py ''E-EMPTYHEAD'', py ''W-MULTIH1'', py ''W-HEADJUMP''}"
    by (rule heading_codes)
  have links: "\<And>x. x \<in> set links \<Longrightarrow>
      code x \<in> {py ''E-NOALTTEXT'', py ''W-EMPTYLINKTEXT'', py ''E-EMPTYURL'', py ''W-SCHEME''}"
    using links_check_line [OF l] by simp
  have table: "\<And>x. x \<in> set table \<Longrightarrow> code x \<in> {py ''W-TABLEPIPES''}"
    using table_check_line [OF p] by simp
  have list: "\<And>x. x \<in> set (list_check path i ln) \<Longrightarrow> code x \<in> {py ''W-LISTTAB''}"
    by (simp add: list_check_line)
  show "filter (\<lambda>x. code x = py ''W-TRAIL'') new = trail_check path i msg_trail ln"
    unfolding new filter_append
    by (simp add: filter_code_none [OF blank] filter_code_none [OF len] filter_code_none [OF tab]
        filter_code_none [OF head] filter_code_none [OF links] filter_code_none [OF table]
        filter_code_none [OF list] filter_code_all trail_check_line py_def)
  have "filter (\<lambda>x. code x = py ''W-MULTIBLANK'') new = blank"
    unfolding new filter_append
    by (simp add: filter_code_none [OF trail] filter_code_none [OF len] filter_code_none [OF tab]
        filter_code_none [OF head] filter_code_none [OF links] filter_code_none [OF table]
        filter_code_none [OF list] filter_code_all multiblank_check_line [OF b] py_def)
  with b show "multiblank_check path L i ln = Inr (filter (\<lambda>x. code x = py ''W-MULTIBLANK'') new)"
    by simp
  assume "c = py ''E-HEADSPACE'' \<or> c = py ''W-HEADJUMP''"
  then show "filter (\<lambda>x. code x = c) new = filter (\<lambda>x. code x = c) ?head"
    unfolding new filter_append
    by (auto simp: filter_code_none [OF trail] filter_code_none [OF len] filter_code_none [OF tab]
        filter_code_none [OF blank] filter_code_none [OF links] filter_code_none [OF table]
        filter_code_none [OF list] py_def)
qed

lemma prose_checks_codes:
  assumes "prose_checks V path L m i ln st = Inr (st', new)" and "x \<in> set new"
  shows "code x \<noteq> py ''E-FENCE'' \<and> code x \<noteq> py ''W-NOEOFNL'' \<and> code x \<noteq> py ''W-CRLF''"
proof -
  from prose_checks_new [OF assms(1)] obtain blank tab links table counts where
    b: "multiblank_check path L i ln = Inr blank" and
    t: "tab_check path i ln = Inr tab" and
    l: "links_check V path i ln (link_finditer ln) = Inr links" and
    p: "table_check path i ln (table_block_pipe_counts st) = Inr (table, counts)" and
    new: "new = trail_check path i msg_trail ln @ blank @ linelen_check path m i ln @ tab @
           fst (heading_check path i ln (last_heading_level st) (seen_h1 st)) @ links @ table @
           list_check path i ln"
    by blast
  from assms(2) have "code x \<in> {py ''W-TRAIL'', py ''W-MULTIBLANK'', py ''W-LINELEN'', py ''W-TAB'',
      py ''E-HEADSPACE'', py ''E-EMPTYHEAD'', py ''W-MULTIH1'', py ''W-HEADJUMP'',
      py ''E-NOALTTEXT'', py ''W-EMPTYLINKTEXT'', py ''E-EMPTYURL'', py ''W-SCHEME'',
      py ''W-TABLEPIPES'', py ''W-LISTTAB''}"
    unfolding new
    using trail_check_line [of x path i msg_trail ln] multiblank_check_line [OF b, of x]
      linelen_check_line [of x path m i ln] tab_check_line [OF t, of x]
      heading_codes [of x path i ln "last_heading_level st" "seen_h1 st"]
      links_check_line [OF l, of x] table_check_line [OF p, of x] list_check_line [of x path i ln]
    by auto
  then show ?thesis
    by (auto simp: py_def)
qed

lemma scan_line_codes:
  assumes "scan_line V path L m i ln st = Inr (st', new)" and "x \<in> set new"
  shows "code x \<noteq> py ''E-FENCE'' \<and> code x \<noteq> py ''W-NOEOFNL'' \<and> code x \<noteq> py ''W-CRLF''"
proof (cases "code_fence_match ln = None \<and> \<not> in_fence st")
  case True
  with assms(1) have "prose_checks V path L m i ln st = Inr (st', new)"
    by (simp add: scan_line_def)
  from prose_checks_codes [OF this assms(2)] show ?thesis .
next
  case False
  with assms have "code x = py ''W-TRAIL''"
    by (auto simp: scan_line_def split: option.splits sum.splits if_splits dest: trail_check_line)
  then show ?thesis by (simp add: py_def)
qed

lemma scan_lines_codes:
  "scan_lines V path L m i xs st = Inr (st', found) \<Longrightarrow> x \<in> set found \<Longrightarrow>
     code x \<noteq> py ''E-FENCE'' \<and> code x \<noteq> py ''W-NOEOFNL'' \<and> code x \<noteq> py ''W-CRLF''"
proof (induction xs arbitrary: i st found)
  case Nil
  then show ?case by simp
next
  case (Cons ln xs)
  from Cons.prems(1) obtain st1 new later where
    1: "scan_line V path L m i ln st = Inr (st1, new)" and
    2: "scan_lines V path L m (i + 1) xs st1 = Inr (st', later)" and
    3: "found = new @ later"
    by (auto split: sum.splits prod.splits)
  from Cons.prems(2) 3 consider "x \<in> set new" | "x \<in> set later" by auto
  then show ?case
  proof cases
    case 1
    with \<open>scan_line V path L m i ln st = Inr (st1, new)\<close> show ?thesis
      by (rule scan_line_codes)
  next
    case 2
    with Cons.IH [OF \<open>scan_lines V path L m (i + 1) xs st1 = Inr (st', later)\<close>]
    show ?thesis by simp
  qed
qed

section \<open>Which exceptions the scan can raise\<close>

lemma multiblank_check_at:
  assumes "k < length L"
  shows "multiblank_check path L (int k + 1) ln =
           Inr (if 2 \<le> k \<and> blank (L ! (k - 1)) \<and> blank (L ! k) \<and> blank ln
                then [Issue path (int k + 1) 1 (py ''W-MULTIBLANK'') msg_multiblank []]
                else [])"
proof (cases "2 \<le> k")
  case True
  have "getitem L (int k - 1) = Inr (L ! nat (int k - 1))"
    using assms True by (simp add: getitem_def)
  moreover have "nat (int k - 1) = k - 1"
    by simp
  ultimately have a: "getitem L (int k + 1 - 2) = Inr (L ! (k - 1))"
    by simp
  have b: "getitem L (int k + 1 - 1) = Inr (L ! k)"
    using assms by (simp add: getitem_def)
  have three: "(3::int) \<le> int k + 1"
    using True by simp
  show ?thesis
    unfolding multiblank_check_def a b blank_def using True three by simp
next
  case False
  then show ?thesis
    by (simp add: multiblank_check_def)
qed

lemma link_matches_start:
  "(s, t, u) \<in> set (link_matches pos ln) \<Longrightarrow> pos \<le> s \<and> s < pos + length ln"
proof (induction pos ln rule: link_matches.induct)
  case (1 pos)
  then show ?case by simp
next
  case (2 pos c cs)
  show ?case
  proof (cases "if c = 33 then link_body cs else None")
    case (Some m)
    obtain t' u' r where m: "m = (t', u', r)" by (cases m)
    from Some m have b: "link_body cs = Some (t', u', r)" and c: "c = 33"
      by (auto split: if_splits)
    from link_body_shorter [OF b] have len: "length r < length cs" .
    from "2.prems" Some m consider "s = pos"
      | "(s, t, u) \<in> set (link_matches (pos + (Suc (length cs) - length r)) r)"
      by auto
    then show ?thesis
    proof cases
      case 1
      then show ?thesis by simp
    next
      case 2
      with "2.IH" Some m len show ?thesis by fastforce
    qed
  next
    case None
    show ?thesis
    proof (cases "link_body (c # cs)")
      case (Some m)
      obtain t' u' r where m: "m = (t', u', r)" by (cases m)
      from link_body_shorter [of "c # cs" t' u' r] Some m have len: "length r < Suc (length cs)"
        by simp
      from "2.prems" None Some m consider "s = pos"
        | "(s, t, u) \<in> set (link_matches (pos + (Suc (length cs) - length r)) r)"
        by auto
      then show ?thesis
      proof cases
        case 1
        then show ?thesis by simp
      next
        case 2
        with "2.IH" None Some m len show ?thesis by fastforce
      qed
    next
      case none: None
      with "2.prems" \<open>(if c = 33 then link_body cs else None) = None\<close>
      have "(s, t, u) \<in> set (link_matches (Suc pos) cs)" by simp
      with "2.IH" \<open>(if c = 33 then link_body cs else None) = None\<close> none
      show ?thesis by fastforce
    qed
  qed
qed

lemma link_check_raises:
  assumes "link_check V path i ln lm = Inl e" and "fst lm < length ln"
  shows "urlparse_scheme V (snd (snd lm)) = Inl e"
  using assms
  by (cases lm) (auto simp: link_check_def getitem_def Let_def split: sum.splits if_splits)

lemma links_check_raises:
  "links_check V path i ln lms = Inl e \<Longrightarrow> (\<And>lm. lm \<in> set lms \<Longrightarrow> fst lm < length ln) \<Longrightarrow>
     \<exists>lm \<in> set lms. urlparse_scheme V (snd (snd lm)) = Inl e"
proof (induction lms)
  case Nil
  then show ?case by simp
next
  case (Cons lm lms)
  show ?case
  proof (cases "link_check V path i ln lm")
    case (Inl e')
    with Cons.prems(1) have "e' = e" by simp
    with Inl link_check_raises [of V path i ln lm e] Cons.prems(2) show ?thesis
      by simp
  next
    case (Inr new)
    with Cons.prems(1) have "links_check V path i ln lms = Inl e"
      by (simp split: sum.splits)
    from Cons.IH [OF this] Cons.prems(2) show ?thesis by simp
  qed
qed

lemma tab_check_returns: "\<exists>b. tab_check path i ln = Inr b"
  by (simp add: tab_check_def str_index_def)

lemma table_mismatches_returns:
  assumes "counts \<noteq> []"
  shows "\<exists>b. table_mismatches path at counts = Inr b"
proof -
  from assms have "set (set_iter counts) \<noteq> {}"
    by (simp add: set_iter_def)
  then obtain x r where "set_iter counts = x # r"
    by (cases "set_iter counts") auto
  then show ?thesis
    by (simp add: table_mismatches_def max_key_def)
qed

lemma table_check_returns: "\<exists>r. table_check path i ln counts = Inr r"
  using table_mismatches_returns [of counts path i]
  by (auto simp: table_check_def)

lemma code_fence_marker:
  assumes "code_fence_match ln = Some (indent, marker, info)"
  shows "\<exists>m0. getitem marker 0 = Inr m0"
proof -
  from assms have "3 \<le> length marker"
    by (auto simp: code_fence_match_def Let_def split: if_splits)
  then show ?thesis
    by (cases marker) (simp_all add: getitem_def)
qed

lemma prose_checks_raises:
  assumes "prose_checks V path L m (int k + 1) ln st = Inl e" and "k < length L"
  shows "\<exists>lm \<in> set (link_finditer ln). urlparse_scheme V (snd (snd lm)) = Inl e"
proof -
  have s: "\<And>lm. lm \<in> set (link_finditer ln) \<Longrightarrow> fst lm < length ln"
    using link_matches_start [of _ _ _ 0 ln] by (auto simp: link_finditer_def)
  obtain tab where tab: "tab_check path (int k + 1) ln = Inr tab"
    using tab_check_returns by blast
  obtain r where tb: "table_check path (int k + 1) ln (table_block_pipe_counts st) = Inr r"
    using table_check_returns by blast
  from assms(1) have "links_check V path (int k + 1) ln (link_finditer ln) = Inl e"
    unfolding prose_checks_def multiblank_check_at [OF assms(2)] tab tb
    by (auto split: sum.splits prod.splits)
  from links_check_raises [OF this s] show ?thesis by simp
qed

lemma scan_line_raises:
  assumes "scan_line V path L m (int k + 1) ln st = Inl e" and "k < length L"
  shows "\<exists>lm \<in> set (link_finditer ln). urlparse_scheme V (snd (snd lm)) = Inl e"
proof (cases "code_fence_match ln")
  case None
  with assms(1) have "prose_checks V path L m (int k + 1) ln st = Inl e"
    by (simp add: scan_line_def split: if_splits)
  from prose_checks_raises [OF this assms(2)] show ?thesis .
next
  case (Some g)
  obtain indent marker info where g: "g = (indent, marker, info)" by (cases g)
  from code_fence_marker [OF Some [unfolded g]] obtain m0 where "getitem marker 0 = Inr m0" ..
  with assms(1) Some g show ?thesis
    by (simp add: scan_line_def split: if_splits)
qed

lemma scan_lines_raises:
  "scan_lines V path L m i rest st = Inl e \<Longrightarrow> i = int k + 1 \<Longrightarrow> k + length rest \<le> length L \<Longrightarrow>
     \<exists>ln \<in> set rest. \<exists>lm \<in> set (link_finditer ln). urlparse_scheme V (snd (snd lm)) = Inl e"
proof (induction rest arbitrary: i k st)
  case Nil
  then show ?case by simp
next
  case (Cons ln rest)
  from Cons.prems(3) have k: "k < length L" by simp
  show ?case
  proof (cases "scan_line V path L m i ln st")
    case (Inl e')
    with Cons.prems(1) have "e' = e" by simp
    with Inl Cons.prems(2) scan_line_raises [OF _ k] show ?thesis by auto
  next
    case (Inr r)
    obtain st' new where r: "r = (st', new)" by (cases r)
    from Cons.prems(1) Inr r have 1: "scan_lines V path L m (i + 1) rest st' = Inl e"
      by (auto split: sum.splits prod.splits)
    from Cons.prems(2) have 2: "i + 1 = int (Suc k) + 1" by simp
    from Cons.prems(3) have 3: "Suc k + length rest \<le> length L" by simp
    from Cons.IH [OF 1 2 3] show ?thesis by simp
  qed
qed

text \<open>
  The lookback \<open>lines[i-2]\<close>, \<open>line.index\<close> and \<open>max\<close> are guarded: an exception
  of the scan is one that \<open>urlparse\<close> raised on a link target of some line, and a
  text none of whose link targets makes \<open>urlparse\<close> raise is scanned to the end.
\<close>

lemma scan_text_raises:
  assumes "scan_text V path raw m = Inl e"
  shows "\<exists>ln \<in> set (splitlines raw). \<exists>lm \<in> set (link_finditer ln).
           urlparse_scheme V (snd (snd lm)) = Inl e"
proof (cases "scan_lines V path (splitlines raw) m 1 (splitlines raw) init_state")
  case (Inl e')
  with assms have "e' = e"
    by (simp add: scan_text_def)
  with Inl have "scan_lines V path (splitlines raw) m 1 (splitlines raw) init_state = Inl e"
    by simp
  from scan_lines_raises [OF this, of 0] show ?thesis by simp
next
  case (Inr r)
  obtain st found where r: "r = (st, found)" by (cases r)
  obtain b where "(if table_block_pipe_counts st \<noteq> []
      then table_mismatches path (int (length (splitlines raw))) (table_block_pipe_counts st)
      else Inr []) = Inr b"
    using table_mismatches_returns [of "table_block_pipe_counts st" path "int (length (splitlines raw))"]
    by (cases "table_block_pipe_counts st = []") auto
  with assms Inr r show ?thesis
    by (simp add: scan_text_def)
qed

lemma scan_text_returns:
  assumes "\<And>ln lm. ln \<in> set (splitlines raw) \<Longrightarrow> lm \<in> set (link_finditer ln) \<Longrightarrow>
             \<exists>scheme. urlparse_scheme V (snd (snd lm)) = Inr scheme"
  shows "\<exists>issues. scan_text V path raw m = Inr issues"
proof (cases "scan_text V path raw m")
  case (Inl e)
  from scan_text_raises [OF this] assms show ?thesis by fastforce
next
  case (Inr issues)
  then show ?thesis by simp
qed

section \<open>The claims\<close>

text \<open>The definitions a scan of a concrete document unfolds.\<close>

lemmas ev = py_def splitlines_def is_linebreak_def code_fence_match_def isspace_def
  link_finditer_def link_body_def urlparse_scheme_def split_scheme_def netloc_of_def
  scheme_char_def ascii_alpha_def ascii_lower_def scan_text_def scan_line_def prose_checks_def
  multiblank_check_def tab_check_def heading_check_def heading_match_def link_check_def
  table_check_def table_line_match_def list_check_def list_marker_match_def trail_check_def
  trailing_space_search_def linelen_check_def getitem_def str_index_def init_state_def
  strip_def Issue_def endswith_newline_def table_mismatches_def max_key_def set_iter_def
  slice_last_def slice_to_def isdecimal_def nd_blocks_def

subsection \<open>C1: excess blank run\<close>





text \<open>
  What the amended claim leaves open. The comment at line 126 says three or more
  consecutive lines, but with \<open>i\<close> counted from 1, \<open>lines[i-2]\<close> and \<open>lines[i-1]\<close> are
  the previous and the current line: the second blank line of a run is reported already.
\<close>

lemma multiblank_after_two_blank_lines:
  "scan_text (\<lambda>n. None) (py ''a.md'') (py ''a'' @ [10, 10, 10]) 120 =
     Inr [Issue (py ''a.md'') 3 1 (py ''W-MULTIBLANK'') msg_multiblank []] \<and>
   splitlines (py ''a'' @ [10, 10, 10]) = [py ''a'', [], []]"
  by (simp add: ev)

subsection \<open>C2: link and image lines\<close>

text \<open>
  C2. The line \<open>[text]()\<close> should give one E-EMPTYURL issue. \<open>LINK_PAT\<close> asks for at
  least one character between the parentheses, so the line holds no match at all and the
  scan reports nothing. The check at lines 170-171 is only reached with a target made of
  white space. The other two lines of the claim behave as it says.
\<close>

theorem link_with_empty_target_not_reported:
  "link_finditer (py ''[text]()'') = [] \<and>
   scan_text (\<lambda>n. None) (py ''a.md'') (py ''[text]()'' @ [10]) 120 = Inr []"
  by (simp add: ev)

lemma image_without_alt_text:
  "scan_text V (py ''a.md'') (py ''![](img.png)'' @ [10]) 120 =
     Inr [Issue (py ''a.md'') 1 1 (py ''E-NOALTTEXT'') msg_noalttext (py ''![](img.png)'')]"
  by (simp add: ev)

lemma empty_link_text_and_ftp_scheme:
  "scan_text V (py ''a.md'') (py ''[](ftp://host/x)'' @ [10]) 120 =
     Inr [Issue (py ''a.md'') 1 1 (py ''W-EMPTYLINKTEXT'') msg_emptylinktext
            (py ''[](ftp://host/x)''),
          Issue (py ''a.md'') 1 1 (py ''W-SCHEME'')
            (msg_scheme_1 @ py ''ftp'' @ py [CHR 0x27, CHR ''.'']) (py ''ftp://host/x'')]"
  by (simp add: ev)

lemma whitespace_target_reported:
  "map code (projr (scan_text V (py ''a.md'') (py ''[text]( )'' @ [10]) 120)) = [py ''E-EMPTYURL'']"
  by (simp add: ev)

subsection \<open>C3: trailing white space\<close>

lemma scan_line_trail:
  assumes "scan_line V path L m i ln st = Inr (st', new)"
  shows "filter (\<lambda>x. code x = py ''W-TRAIL'') new =
           (if code_fence_match ln = None
            then trail_check path i (if in_fence st then msg_trail_fence else msg_trail) ln
            else [])"
proof (cases "code_fence_match ln = None \<and> \<not> in_fence st")
  case True
  with assms have "prose_checks V path L m i ln st = Inr (st', new)"
    by (simp add: scan_line_def)
  from prose_checks_filter(1) [OF this] True show ?thesis by simp
next
  case False
  with assms show ?thesis
    by (auto simp: scan_line_def filter_code_all trail_check_line
        split: option.splits sum.splits if_splits)
qed

text \<open>
  C3, as amended. When the scan of a document returns its issues, a line that is not a
  fence line and ends in a space or a tab has exactly one W-TRAIL issue located at it,
  with the raw length of the line as its column, whether the line is outside a fence or
  inside an open one (the two differ in the message only). A fence line, and a line that
  does not end in a space or a tab, has none.
\<close>

theorem trailing_space_one_issue:
  assumes "scan_text V path raw max_len = Inr issues" and "k < length (splitlines raw)"
  shows "filter (\<lambda>x. code x = py ''W-TRAIL'' \<and> line x = int k + 1) issues =
           (if code_fence_match (splitlines raw ! k) = None \<and>
               trailing_space_search (splitlines raw ! k)
            then [Issue path (int k + 1) (int (length (splitlines raw ! k))) (py ''W-TRAIL'')
                    (if open_fence (take k (splitlines raw)) = None then msg_trail
                     else msg_trail_fence)
                    (slice_last (splitlines raw ! k) 40)]
            else [])"
proof -
  let ?L = "splitlines raw"
  have c: "py ''W-TRAIL'' \<noteq> py ''W-CRLF''" "py ''W-TRAIL'' \<noteq> py ''W-NOEOFNL''"
    "py ''W-TRAIL'' \<noteq> py ''E-FENCE''" "py ''W-TRAIL'' \<noteq> py ''W-TABLEPIPES''"
    by (simp_all add: py_def)
  from scan_text_at_line [OF assms c] obtain st before st' new where
    1: "scan_lines V path ?L max_len 1 (take k ?L) init_state = Inr (st, before)" and
    2: "scan_line V path ?L max_len (int k + 1) (?L ! k) st = Inr (st', new)" and
    3: "filter (\<lambda>x. code x = py ''W-TRAIL'' \<and> line x = int k + 1) issues =
        filter (\<lambda>x. code x = py ''W-TRAIL'') new"
    by blast
  have "in_fence st = (open_fence (take k ?L) \<noteq> None)"
    by (rule tracks_in_fence [OF scan_lines_tracks [OF 1]])
  with scan_line_trail [OF 2] 3 show ?thesis
    by (auto simp: trail_check_def)
qed

theorem trailing_space_one_issue_witness:
  "scan_text (\<lambda>n. None) (py ''a.md'') (py ''~~~'' @ [10] @ py ''x '' @ [10] @ py ''~~~'' @ [10]) 120 =
     Inr [Issue (py ''a.md'') 2 2 (py ''W-TRAIL'') msg_trail_fence (py ''x '')] \<and>
   splitlines (py ''~~~'' @ [10] @ py ''x '' @ [10] @ py ''~~~'' @ [10]) =
     [py ''~~~'', py ''x '', py ''~~~''] \<and>
   trailing_space_search (py ''x '') \<and> code_fence_match (py ''x '') = None \<and>
   open_fence [py ''~~~''] = Some (126, []) \<and>
   filter (\<lambda>x. code x = py ''W-TRAIL'' \<and> line x = 2)
     [Issue (py ''a.md'') 2 2 (py ''W-TRAIL'') msg_trail_fence (py ''x '')] =
     [Issue (py ''a.md'') 2 2 (py ''W-TRAIL'') msg_trail_fence (py ''x '')]"
proof -
  have h: "scan_text (\<lambda>n. None) (py ''a.md'')
      (py ''~~~'' @ [10] @ py ''x '' @ [10] @ py ''~~~'' @ [10]) 120 =
     Inr [Issue (py ''a.md'') 2 2 (py ''W-TRAIL'') msg_trail_fence (py ''x '')]"
    by (simp add: ev)
  have l: "splitlines (py ''~~~'' @ [10] @ py ''x '' @ [10] @ py ''~~~'' @ [10]) =
     [py ''~~~'', py ''x '', py ''~~~'']"
    by (simp add: ev)
  have k: "1 < length (splitlines (py ''~~~'' @ [10] @ py ''x '' @ [10] @ py ''~~~'' @ [10]))"
    unfolding l by simp
  have o: "open_fence [py ''~~~''] = Some (126, [])"
    by (simp add: open_fence_def fence_next_def ev)
  have t: "trailing_space_search (py ''x '') \<and> code_fence_match (py ''x '') = None"
    by (simp add: ev)
  from trailing_space_one_issue [OF h k, unfolded l] h l o t show ?thesis
    by (simp add: Issue_def slice_last_def py_def)
qed

text \<open>
  The claim as stated fails on a fence line: the opening line of this document ends in
  a space, and the scan reports nothing at all.
\<close>

theorem fence_line_with_trailing_space:
  "scan_text (\<lambda>n. None) (py ''a.md'') (py ''``` '' @ [10] @ py ''```'' @ [10]) 120 = Inr [] \<and>
   splitlines (py ''``` '' @ [10] @ py ''```'' @ [10]) = [py ''``` '', py ''```''] \<and>
   trailing_space_search (py ''``` '')"
  by (simp add: ev)

subsection \<open>C4: the invariant of the scan state\<close>




subsection \<open>C5: the unclosed fence\<close>



subsection \<open>C6: heading level jumps\<close>

lemma heading_jump_filter:
  assumes "heading_match ln = Some (hashes, text)"
  shows "filter (\<lambda>x. code x = py ''W-HEADJUMP'') (fst (heading_check path i ln lv seen)) =
           (if lv \<noteq> 0 \<and> lv + 1 < length hashes
            then [Issue path i 1 (py ''W-HEADJUMP'')
                    (msg_headjump_1 @ str_int (int lv) @ msg_headjump_2 @
                     str_int (int (length hashes)) @ msg_headjump_3)
                    (take 80 ln)]
            else [])"
  using assms by (simp add: heading_check_def Let_def Issue_def py_def)

text \<open>
  C6, as amended. When the scan of a document returns its issues, a heading line checked
  outside fences has exactly one W-HEADJUMP issue, its message naming the previous level
  and its own, when the previous heading's level is not 0 and its own level exceeds it
  by more than one; otherwise it has none. The previous level is that of the last
  heading among the lines checked outside fences before it. A step down never counts,
  however large.
\<close>

theorem heading_jump_upward_only:
  assumes "scan_text V path raw max_len = Inr issues" and "k < length (splitlines raw)"
    and "outside_fence (splitlines raw) k"
    and "heading_match (splitlines raw ! k) = Some (hashes, text)"
  shows "filter (\<lambda>x. code x = py ''W-HEADJUMP'' \<and> line x = int k + 1) issues =
           (if previous_level (prose_lines (take k (splitlines raw))) \<noteq> 0 \<and>
               previous_level (prose_lines (take k (splitlines raw))) + 1 < length hashes
            then [Issue path (int k + 1) 1 (py ''W-HEADJUMP'')
                    (msg_headjump_1 @
                     str_int (int (previous_level (prose_lines (take k (splitlines raw))))) @
                     msg_headjump_2 @ str_int (int (length hashes)) @ msg_headjump_3)
                    (take 80 (splitlines raw ! k))]
            else [])"
proof -
  let ?L = "splitlines raw"
  have c: "py ''W-HEADJUMP'' \<noteq> py ''W-CRLF''" "py ''W-HEADJUMP'' \<noteq> py ''W-NOEOFNL''"
    "py ''W-HEADJUMP'' \<noteq> py ''E-FENCE''" "py ''W-HEADJUMP'' \<noteq> py ''W-TABLEPIPES''"
    by (simp_all add: py_def)
  from scan_text_at_line [OF assms(1,2) c] obtain st before st' new where
    1: "scan_lines V path ?L max_len 1 (take k ?L) init_state = Inr (st, before)" and
    2: "scan_line V path ?L max_len (int k + 1) (?L ! k) st = Inr (st', new)" and
    3: "filter (\<lambda>x. code x = py ''W-HEADJUMP'' \<and> line x = int k + 1) issues =
        filter (\<lambda>x. code x = py ''W-HEADJUMP'') new"
    by blast
  from scan_lines_tracks [OF 1] have t: "tracks (take k ?L) st" .
  from tracks_in_fence [OF t] assms(3) have "\<not> in_fence st"
    by (simp add: outside_fence_def)
  with 2 assms(3) have "prose_checks V path ?L max_len (int k + 1) (?L ! k) st = Inr (st', new)"
    by (simp add: scan_line_prose outside_fence_def)
  from prose_checks_filter(3) [OF this, of "py ''W-HEADJUMP''"]
  have "filter (\<lambda>x. code x = py ''W-HEADJUMP'') new =
        filter (\<lambda>x. code x = py ''W-HEADJUMP'')
          (fst (heading_check path (int k + 1) (?L ! k) (last_heading_level st) (seen_h1 st)))"
    by simp
  moreover from t have "last_heading_level st = previous_level (prose_lines (take k ?L))"
    by (simp add: tracks_def)
  ultimately show ?thesis
    using 3 heading_jump_filter [OF assms(4)] by simp
qed

theorem heading_jump_upward_only_witness:
  "scan_text (\<lambda>n. None) (py ''a.md'')
     (py ''# a'' @ [10] @ py ''## b'' @ [10] @ py ''#### c'' @ [10]) 120 =
     Inr [Issue (py ''a.md'') 3 1 (py ''W-HEADJUMP'')
            (msg_headjump_1 @ py ''2'' @ msg_headjump_2 @ py ''4'' @ msg_headjump_3)
            (py ''#### c'')] \<and>
   splitlines (py ''# a'' @ [10] @ py ''## b'' @ [10] @ py ''#### c'' @ [10]) =
     [py ''# a'', py ''## b'', py ''#### c''] \<and>
   outside_fence [py ''# a'', py ''## b'', py ''#### c''] 2 \<and>
   heading_match (py ''#### c'') = Some (py ''####'', py ''c'') \<and>
   previous_level (prose_lines [py ''# a'', py ''## b'']) = 2 \<and>
   filter (\<lambda>x. code x = py ''W-HEADJUMP'' \<and> line x = 3)
     [Issue (py ''a.md'') 3 1 (py ''W-HEADJUMP'')
        (msg_headjump_1 @ py ''2'' @ msg_headjump_2 @ py ''4'' @ msg_headjump_3)
        (py ''#### c'')] =
     [Issue (py ''a.md'') 3 1 (py ''W-HEADJUMP'')
        (msg_headjump_1 @ py ''2'' @ msg_headjump_2 @ py ''4'' @ msg_headjump_3)
        (py ''#### c'')]"
proof -
  have h: "scan_text (\<lambda>n. None) (py ''a.md'')
     (py ''# a'' @ [10] @ py ''## b'' @ [10] @ py ''#### c'' @ [10]) 120 =
     Inr [Issue (py ''a.md'') 3 1 (py ''W-HEADJUMP'')
            (msg_headjump_1 @ py ''2'' @ msg_headjump_2 @ py ''4'' @ msg_headjump_3)
            (py ''#### c'')]"
    by (simp add: ev str_int_def)
  have l: "splitlines (py ''# a'' @ [10] @ py ''## b'' @ [10] @ py ''#### c'' @ [10]) =
     [py ''# a'', py ''## b'', py ''#### c'']"
    by (simp add: ev)
  have k: "2 < length (splitlines (py ''# a'' @ [10] @ py ''## b'' @ [10] @ py ''#### c'' @ [10]))"
    unfolding l by simp
  have o: "outside_fence [py ''# a'', py ''## b'', py ''#### c''] 2"
    by (simp add: outside_fence_def open_fence_def fence_next_def ev)
  have m: "heading_match (py ''#### c'') = Some (py ''####'', py ''c'')"
    by (simp add: ev)
  have p: "previous_level (prose_lines [py ''# a'', py ''## b'']) = 2"
    by (simp add: previous_level_def prose_lines_def outside_fence_def open_fence_def
        fence_next_def heading_level_def upt_rec ev)
  from heading_jump_upward_only [OF h k, unfolded l, OF o] m h l o p
  show ?thesis
    by (simp add: Issue_def py_def str_int_def)
qed

text \<open>
  The claim as stated fails on a step down: from level 4 to level 1 the absolute
  difference is 3 and the previous level is not 0, and the scan reports nothing.
\<close>

theorem heading_step_down_by_three:
  "scan_text (\<lambda>n. None) (py ''a.md'') (py ''#### a'' @ [10] @ py ''# b'' @ [10]) 120 = Inr [] \<and>
   splitlines (py ''#### a'' @ [10] @ py ''# b'' @ [10]) = [py ''#### a'', py ''# b''] \<and>
   heading_level (py ''#### a'') = 4 \<and> heading_level (py ''# b'') = 1"
  by (simp add: ev heading_level_def)

subsection \<open>C7: the missing final newline\<close>

lemma splitlines_from_newline:
  "rest \<noteq> [] \<Longrightarrow> \<not> is_linebreak (last rest) \<Longrightarrow>
     splitlines_from cur (rest @ [10]) = splitlines_from cur rest"
proof (induction cur rest rule: splitlines_from.induct)
  case (1 cur)
  then show ?case by simp
next
  case (2 cur c cs)
  show ?case
  proof (cases "cs = []")
    case True
    with "2.prems" show ?thesis
      by (simp add: is_linebreak_def)
  next
    case False
    with "2.prems" have last: "\<not> is_linebreak (last cs)" by simp
    show ?thesis
    proof (cases "c = 13 \<and> hd cs = 10")
      case True
      from False obtain d ds where cs: "cs = d # ds" by (cases cs) auto
      with True have d: "d = 10" by simp
      have "ds \<noteq> []"
      proof
        assume "ds = []"
        with cs d last show False by (simp add: is_linebreak_def)
      qed
      moreover from last cs \<open>ds \<noteq> []\<close> have "\<not> is_linebreak (last ds)" by simp
      ultimately have "splitlines_from [] (ds @ [10]) = splitlines_from [] ds"
        using "2.IH"(1) True False cs by simp
      with True cs d show ?thesis by simp
    next
      case nocrlf: False
      show ?thesis
      proof (cases "is_linebreak c")
        case True
        with nocrlf False last "2.IH"(2) have "splitlines_from [] (cs @ [10]) = splitlines_from [] cs"
          by auto
        with True nocrlf False show ?thesis by auto
      next
        case notbreak: False
        with nocrlf False last "2.IH"(3)
        have "splitlines_from (cur @ [c]) (cs @ [10]) = splitlines_from (cur @ [c]) cs"
          by auto
        with notbreak nocrlf False show ?thesis by auto
      qed
    qed
  qed
qed

lemma crlf_search_newline: "t \<noteq> [] \<Longrightarrow> last t \<noteq> 13 \<Longrightarrow> crlf_search (t @ [10]) = crlf_search t"
  by (induction t rule: crlf_search.induct) simp_all

text \<open>
  C7, as amended. For every non-empty text whose last character is not one of the line
  boundaries of \<open>splitlines\<close> (LF, CR, VT, FF, FS, GS, RS, NEL, LS, PS), appending a
  newline changes the outcome of the scan in one way only: the W-NOEOFNL issue, of which
  the scan of the text has exactly one, is gone; every other issue stays, in the same
  order, and a scan that raises raises the same exception.
\<close>

theorem appended_newline_removes_one_issue:
  assumes "t \<noteq> []" and "\<not> is_linebreak (last t)"
  shows "scan_text V path (t @ [10]) max_len =
           map_sum id (filter (\<lambda>x. code x \<noteq> py ''W-NOEOFNL'')) (scan_text V path t max_len) \<and>
         (\<forall>issues. scan_text V path t max_len = Inr issues \<longrightarrow>
            filter (\<lambda>x. code x = py ''W-NOEOFNL'') issues =
              [Issue path 0 0 (py ''W-NOEOFNL'') msg_noeofnl []])"
proof -
  have l: "splitlines (t @ [10]) = splitlines t"
    unfolding splitlines_def by (rule splitlines_from_newline [OF assms])
  from assms(2) have "last t \<noteq> 13" "last t \<noteq> 10"
    by (auto simp: is_linebreak_def)
  then have c: "crlf_search (t @ [10]) = crlf_search t" and e: "\<not> endswith_newline t"
    using assms(1) by (simp_all add: crlf_search_newline endswith_newline_def)
  have e': "endswith_newline (t @ [10])"
    by (simp add: endswith_newline_def)
  let ?L = "splitlines t"
  show ?thesis
  proof (cases "scan_lines V path ?L max_len 1 ?L init_state")
    case (Inl err)
    then show ?thesis
      by (simp add: scan_text_def l)
  next
    case (Inr r)
    obtain st found where r: "r = (st, found)" by (cases r)
    let ?tab = "if table_block_pipe_counts st \<noteq> []
                then table_mismatches path (int (length ?L)) (table_block_pipe_counts st)
                else Inr []"
    show ?thesis
    proof (cases ?tab)
      case (Inl err)
      with Inr r show ?thesis
        by (simp add: scan_text_def l)
    next
      case tab: (Inr table)
      let ?P = "\<lambda>x. code x \<noteq> py ''W-NOEOFNL''"
      let ?Q = "\<lambda>x. code x = py ''W-NOEOFNL''"
      have f: "filter ?P found = found" "filter ?Q found = []"
        using scan_lines_codes [OF Inr [unfolded r]]
        by (auto simp: filter_id_conv filter_empty_conv)
      have "\<And>x. x \<in> set table \<Longrightarrow> code x = py ''W-TABLEPIPES''"
        by (rule final_table_codes [OF tab])
      then have tb: "filter ?P table = table" "filter ?Q table = []"
        by (auto simp: filter_id_conv filter_empty_conv py_def)
      have neq: "py ''W-CRLF'' \<noteq> py ''W-NOEOFNL''" "py ''E-FENCE'' \<noteq> py ''W-NOEOFNL''"
        by (simp_all add: py_def)
      from Inr r tab e e' c show ?thesis
        by (simp add: scan_text_def l f tb Issue_def neq)
    qed
  qed
qed

theorem appended_newline_removes_one_issue_witness:
  "py ''x'' \<noteq> [] \<and> \<not> is_linebreak (last (py ''x'')) \<and>
   scan_text (\<lambda>n. None) (py ''a.md'') (py ''x'') 120 =
     Inr [Issue (py ''a.md'') 0 0 (py ''W-NOEOFNL'') msg_noeofnl []] \<and>
   scan_text (\<lambda>n. None) (py ''a.md'') (py ''x'' @ [10]) 120 = Inr [] \<and>
   filter (\<lambda>x. code x = py ''W-NOEOFNL'')
     [Issue (py ''a.md'') 0 0 (py ''W-NOEOFNL'') msg_noeofnl []] =
     [Issue (py ''a.md'') 0 0 (py ''W-NOEOFNL'') msg_noeofnl []]"
proof -
  have a: "py ''x'' \<noteq> []" and b: "\<not> is_linebreak (last (py ''x''))"
    by (simp_all add: py_def is_linebreak_def)
  have h: "scan_text (\<lambda>n. None) (py ''a.md'') (py ''x'') 120 =
     Inr [Issue (py ''a.md'') 0 0 (py ''W-NOEOFNL'') msg_noeofnl []]"
    by (simp add: ev)
  from appended_newline_removes_one_issue [OF a b, of "\<lambda>n. None" "py ''a.md''" 120] a b h
  show ?thesis
    by (simp add: Issue_def py_def)
qed

text \<open>
  The claim as stated fails for a text that ends in a line boundary other than the
  newline. This one ends in a form feed: it does not end in a newline and W-NOEOFNL is
  reported, but the appended newline starts a second, empty line, and the E-FENCE issue
  moves from line 1 to line 2.
\<close>

theorem form_feed_then_newline:
  "\<not> endswith_newline (py ''~~~'' @ [12]) \<and>
   scan_text (\<lambda>n. None) (py ''a.md'') (py ''~~~'' @ [12]) 120 =
     Inr [Issue (py ''a.md'') 0 0 (py ''W-NOEOFNL'') msg_noeofnl [],
          Issue (py ''a.md'') 1 1 (py ''E-FENCE'') msg_fence []] \<and>
   scan_text (\<lambda>n. None) (py ''a.md'') (py ''~~~'' @ [12] @ [10]) 120 =
     Inr [Issue (py ''a.md'') 2 1 (py ''E-FENCE'') msg_fence []]"
  by (simp add: ev)

text \<open>
  The empty text is left out of the amended claim as well: with a negative threshold the
  empty line that the appended newline creates is longer than allowed.
\<close>

lemma empty_text_negative_threshold:
  "scan_text V (py ''a.md'') [] (- 1) =
     Inr [Issue (py ''a.md'') 0 0 (py ''W-NOEOFNL'') msg_noeofnl []] \<and>
   map code (projr (scan_text V (py ''a.md'') [10] (- 1))) = [py ''W-LINELEN'']"
  by (simp add: ev)

subsection \<open>C8: the unreadable file\<close>

text \<open>
  C8. When the file cannot be read, \<open>check_file\<close> returns a list of exactly one issue:
  code E-READ at line 0, column 0, its message the fixed text followed by the text of the
  exception. Nothing else is checked (the result does not depend on the threshold, on
  \<open>check_links\<close> or on the network), and the result is a returned list, not an exception.
\<close>

theorem unreadable_file_one_issue:
  "check_file V probe path (Inl cause) max_len check_links =
     Inr [Issue path 0 0 (py ''E-READ'') (msg_read @ cause) []]"
  by (simp add: check_file_def)

subsection \<open>C9: totality of the scan\<close>

text \<open>
  C9. The scan is not total: \<open>urlparse\<close> at line 174 is called outside any
  \<open>try\<close>, and it raises ValueError for a link target whose network location has an
  unmatched square bracket.
\<close>

theorem unmatched_bracket_in_link_target:
  "link_finditer (py ''[x](http://[::1)'') = [(0, py ''x'', py ''http://[::1'')] \<and>
   scan_text (\<lambda>n. None) (py ''a.md'') (py ''[x](http://[::1)'' @ [10]) 120 =
     Inl (ValueError (py ''Invalid IPv6 URL''))"
  by (simp add: ev)

subsection \<open>C10: seven or more hashes\<close>






end
